theory Spec2Isabelle
  imports Main "HOL-Library.Sublist"
begin

section \<open>Values and exceptions of the script\<close>

text \<open>
  \<^verbatim>\<open>app.py\<close> works on the decoded JSON body of the search API: untyped Python
  dictionaries, lists, strings and numbers. A dictionary is kept as the list of its items;
  a key is looked up with \<open>map_of\<close>. JSON numbers are integers here (the API's
  durations and identifiers are integers); a byte string is a list of characters.
\<close>

datatype json =
    JNull
  | JBool bool
  | JInt int
  | JStr string
  | JList "json list"
  | JDict "(string \<times> json) list"

type_synonym bytes = string

text \<open>
  The exceptions the script can meet. \<open>RequestException\<close> stands for
  \<^verbatim>\<open>requests.exceptions.RequestException\<close> and all its subclasses (connection
  errors, \<^verbatim>\<open>HTTPError\<close> from \<^verbatim>\<open>raise_for_status\<close>, the JSON decoding
  error of \<^verbatim>\<open>response.json()\<close>); the others are caught by
  \<^verbatim>\<open>except Exception\<close> only.
\<close>

datatype py_error =
    RequestException
  | KeyError
  | TypeError
  | AttributeError
  | ValueError
  | OtherException

subsection \<open>Python's operations on these values\<close>

text \<open>Truth value of an object, as \<^verbatim>\<open>if x:\<close> and \<^verbatim>\<open>not x\<close> test it.\<close>

fun truthy :: "json \<Rightarrow> bool" where
  "truthy JNull = False"
| "truthy (JBool b) = b"
| "truthy (JInt n) = (n \<noteq> 0)"
| "truthy (JStr s) = (s \<noteq> [])"
| "truthy (JList xs) = (xs \<noteq> [])"
| "truthy (JDict kvs) = (kvs \<noteq> [])"

text \<open>\<^verbatim>\<open>obj.get(k, dflt)\<close>: only a dictionary has the method.\<close>

fun py_get :: "json \<Rightarrow> string \<Rightarrow> json \<Rightarrow> py_error + json" where
  "py_get (JDict kvs) k dflt = Inr (case map_of kvs k of None \<Rightarrow> dflt | Some v \<Rightarrow> v)"
| "py_get _ k dflt = Inl AttributeError"

text \<open>\<^verbatim>\<open>obj[k]\<close> with a string key \<open>k\<close>.\<close>

fun py_index :: "json \<Rightarrow> string \<Rightarrow> py_error + json" where
  "py_index (JDict kvs) k = (case map_of kvs k of None \<Rightarrow> Inl KeyError | Some v \<Rightarrow> Inr v)"
| "py_index _ k = Inl TypeError"

text \<open>\<^verbatim>\<open>len(obj)\<close>.\<close>

fun py_len :: "json \<Rightarrow> py_error + nat" where
  "py_len (JStr s) = Inr (length s)"
| "py_len (JList xs) = Inr (length xs)"
| "py_len (JDict kvs) = Inr (length kvs)"
| "py_len _ = Inl TypeError"

text \<open>
  The items a \<^verbatim>\<open>for\<close> loop over the object visits: the elements of a list, the
  keys of a dictionary, the characters of a string.
\<close>

fun py_iter :: "json \<Rightarrow> py_error + json list" where
  "py_iter (JList xs) = Inr xs"
| "py_iter (JDict kvs) = Inr (map (\<lambda>kv. JStr (fst kv)) kvs)"
| "py_iter (JStr s) = Inr (map (\<lambda>ch. JStr [ch]) s)"
| "py_iter _ = Inl TypeError"

text \<open>
  The value a JSON object has in a comparison with an integer: \<^verbatim>\<open>True\<close> and
  \<^verbatim>\<open>False\<close> are the integers 1 and 0, every other non-number raises
  \<^verbatim>\<open>TypeError\<close>.
\<close>

fun py_number :: "json \<Rightarrow> int option" where
  "py_number (JInt n) = Some n"
| "py_number (JBool b) = Some (if b then 1 else 0)"
| "py_number _ = None"

text \<open>The chained comparison \<^verbatim>\<open>lo <= d <= hi\<close> with integers \<open>lo\<close>, \<open>hi\<close>.\<close>

definition py_between :: "int \<Rightarrow> json \<Rightarrow> int \<Rightarrow> py_error + bool" where
  "py_between lo d hi =
     (case py_number d of None \<Rightarrow> Inl TypeError | Some n \<Rightarrow> Inr (lo \<le> n \<and> n \<le> hi))"

subsection \<open>Decimal rendering of integers\<close>

definition digit_char :: "nat \<Rightarrow> char" where
  "digit_char d = ''0123456789'' ! d"

function str_nat :: "nat \<Rightarrow> string" where
  "str_nat n = (if n < 10 then [digit_char n] else str_nat (n div 10) @ [digit_char (n mod 10)])"
  by pat_completeness auto
termination
  by (relation "measure (\<lambda>n. n)") auto

declare str_nat.simps [simp del]

definition str_int :: "int \<Rightarrow> string" where
  "str_int i = (if i < 0 then CHR ''-'' # str_nat (nat (- i)) else str_nat (nat i))"

section \<open>The world outside the script\<close>

text \<open>
  The script talks to the search API and to the video hosts. Both are parameters of the
  model, together with Python's \<^verbatim>\<open>str()\<close> of a list or dictionary:
  \<^item> \<open>search_get p\<close> is what lines 111 to 113 yield for page \<open>p\<close>
    (\<^verbatim>\<open>requests.get\<close>, \<^verbatim>\<open>raise_for_status\<close>, \<^verbatim>\<open>response.json()\<close>):
    the decoded body, or the exception raised;
  \<^item> \<open>video_get i url\<close> is what lines 162 to 177 yield for the \<open>i\<close>-th selected hit:
    the complete content read from \<open>url\<close>, or the exception raised by the request, the
    status check, the content-length header or the chunk loop with its progress updates;
  \<^item> \<open>container_str\<close> renders a list or a dictionary as text.
\<close>

record world =
  search_get :: "nat \<Rightarrow> py_error + json"
  video_get :: "nat \<Rightarrow> json \<Rightarrow> py_error + bytes"
  container_str :: "json \<Rightarrow> string"

text \<open>The form's inputs (lines 61 to 73).\<close>

record criteria =
  search_keyword :: string
  min_duration :: int
  max_duration :: int
  video_quality :: string
  num_videos_to_download :: int

text \<open>\<^verbatim>\<open>str(x)\<close> as the f-string of line 159 applies it.\<close>

fun py_str :: "world \<Rightarrow> json \<Rightarrow> string" where
  "py_str w JNull = ''None''"
| "py_str w (JBool b) = (if b then ''True'' else ''False'')"
| "py_str w (JInt n) = str_int n"
| "py_str w (JStr s) = s"
| "py_str w (JList xs) = container_str w (JList xs)"
| "py_str w (JDict kvs) = container_str w (JDict kvs)"

section \<open>Phases 2 and 3: paging through the search results and filtering\<close>

text \<open>
  The tests of lines 122 to 125 on one raw record: whether the record is kept, or the
  exception one of the tests raises.
\<close>

definition hit_passes :: "criteria \<Rightarrow> json \<Rightarrow> py_error + bool" where
  "hit_passes c video =
     (case py_get video ''duration'' JNull of
        Inl e \<Rightarrow> Inl e
      | Inr duration \<Rightarrow>
          if duration = JNull then Inr False
          else
            (case py_between (min_duration c) duration (max_duration c) of
               Inl e \<Rightarrow> Inl e
             | Inr inside \<Rightarrow>
                 if \<not> inside then Inr False
                 else
                   (case py_index video ''videos'' of
                      Inl e \<Rightarrow> Inl e
                    | Inr renditions \<Rightarrow>
                        (case py_get renditions (video_quality c) JNull of
                           Inl e \<Rightarrow> Inl e
                         | Inr rendition \<Rightarrow> Inr (truthy rendition)))))"

text \<open>
  The inner loop, lines 121 to 128: \<open>filter_hits c hits el\<close> walks the records of one
  page with \<open>el\<close> the list \<^verbatim>\<open>eligible_videos\<close> so far. An exception leaves the
  loop (\<open>Inl\<close>); otherwise the result is the extended list.
\<close>

fun filter_hits :: "criteria \<Rightarrow> json list \<Rightarrow> json list \<Rightarrow> py_error + json list" where
  "filter_hits c [] el = Inr el"
| "filter_hits c (video # rest) el =
     (case hit_passes c video of
        Inl e \<Rightarrow> Inl e
      | Inr kept \<Rightarrow>
          if kept then
            (if num_videos_to_download c \<le> int (length (el @ [video]))
             then Inr (el @ [video])
             else filter_hits c rest (el @ [video]))
          else filter_hits c rest el)"

text \<open>
  The body of the \<^verbatim>\<open>try\<close> of one page, lines 111 to 128. The result is the
  exception raised, or whether line 118 left the page loop together with the list of
  eligible hits. The counter \<^verbatim>\<open>videos_fetched_count\<close> is never read; only the
  \<^verbatim>\<open>len\<close> that feeds it can raise.
\<close>

definition page_body :: "world \<Rightarrow> criteria \<Rightarrow> nat \<Rightarrow> json list \<Rightarrow> py_error + (bool \<times> json list)" where
  "page_body w c page el =
     (case search_get w page of
        Inl e \<Rightarrow> Inl e
      | Inr data \<Rightarrow>
          (case py_get data ''hits'' (JList []) of
             Inl e \<Rightarrow> Inl e
           | Inr counted \<Rightarrow>
               (case py_len counted of
                  Inl e \<Rightarrow> Inl e
                | Inr n \<Rightarrow>
                    (case py_get data ''hits'' JNull of
                       Inl e \<Rightarrow> Inl e
                     | Inr hits \<Rightarrow>
                         if \<not> truthy hits then Inr (True, el)
                         else
                           (case py_index data ''hits'' of
                              Inl e \<Rightarrow> Inl e
                            | Inr hits' \<Rightarrow>
                                (case py_iter hits' of
                                   Inl e \<Rightarrow> Inl e
                                 | Inr records \<Rightarrow>
                                     (case filter_hits c records el of
                                        Inl e \<Rightarrow> Inl e
                                      | Inr el' \<Rightarrow> Inr (False, el'))))))))"

text \<open>
  The page loop, lines 108 to 138, over the pages still to visit. The second component
  is the list of pages requested from the API, in order.
\<close>

fun page_loop ::
  "world \<Rightarrow> criteria \<Rightarrow> nat list \<Rightarrow> json list \<Rightarrow> nat list \<Rightarrow> (py_error + json list) \<times> nat list" where
  "page_loop w c [] el reqs = (Inr el, reqs)"
| "page_loop w c (page # pages) el reqs =
     (case page_body w c page el of
        Inl e \<Rightarrow> (Inl e, reqs @ [page])
      | Inr (left, el') \<Rightarrow>
          if left \<or> num_videos_to_download c \<le> int (length el')
          then (Inr el', reqs @ [page])
          else page_loop w c pages el' (reqs @ [page]))"

text \<open>\<^verbatim>\<open>total_pages_to_check = 2\<close>: the loop runs over \<^verbatim>\<open>range(1, 3)\<close>.\<close>

definition search :: "world \<Rightarrow> criteria \<Rightarrow> (py_error + json list) \<times> nat list" where
  "search w c = page_loop w c [1, 2] [] []"

section \<open>Phase 4: downloading into the archive\<close>

datatype message =
    ValidationError
  | Starting
  | SearchApiError py_error
  | SearchUnexpectedError py_error
  | NoVideosFound
  | FoundVideos nat
  | DownloadApiError string py_error
  | DownloadUnexpectedError string py_error
  | DownloadedCount nat
  | NoVideosDownloaded

datatype event =
    PageRequest nat
  | VideoRequest nat json
  | Status message

text \<open>
  The state of the download loop: the entries written to \<^verbatim>\<open>zip_file\<close>, the list
  \<^verbatim>\<open>st.session_state.downloaded_files\<close>, and what the run has done so far.
\<close>

record dl_state =
  zip_entries :: "(string \<times> bytes) list"
  downloaded_files :: "string list"
  events :: "event list"

text \<open>Line 156, \<^verbatim>\<open>video["videos"][video_quality]["url"]\<close>.\<close>

definition download_url :: "json \<Rightarrow> string \<Rightarrow> py_error + json" where
  "download_url video quality =
     (case py_index video ''videos'' of
        Inl e \<Rightarrow> Inl e
      | Inr renditions \<Rightarrow>
          (case py_index renditions quality of
             Inl e \<Rightarrow> Inl e
           | Inr rendition \<Rightarrow> py_index rendition ''url''))"

text \<open>Lines 157 and 159: the file name of the \<open>i\<close>-th selected hit.\<close>

definition filename :: "world \<Rightarrow> nat \<Rightarrow> json \<Rightarrow> py_error + string" where
  "filename w i video =
     (case py_get video ''id'' (JStr (''unknown_id_'' @ str_nat i)) of
        Inl e \<Rightarrow> Inl e
      | Inr video_id \<Rightarrow> Inr (''pixabay_video_'' @ py_str w video_id @ ''.mp4''))"

definition download_failed :: "string \<Rightarrow> py_error \<Rightarrow> message" where
  "download_failed name e =
     (if e = RequestException then DownloadApiError name e else DownloadUnexpectedError name e)"

text \<open>
  The loop of lines 152 to 188 over \<^verbatim>\<open>enumerate(eligible_videos)\<close>. Lines 156 and
  157 are outside the \<^verbatim>\<open>try\<close>: an exception there ends the script (first
  component \<open>Some e\<close>).
\<close>

fun download_loop ::
  "world \<Rightarrow> criteria \<Rightarrow> (nat \<times> json) list \<Rightarrow> dl_state \<Rightarrow> py_error option \<times> dl_state" where
  "download_loop w c [] st = (None, st)"
| "download_loop w c ((i, video) # rest) st =
     (if num_videos_to_download c \<le> int (length (downloaded_files st)) then (None, st)
      else
        (case download_url video (video_quality c) of
           Inl e \<Rightarrow> (Some e, st)
         | Inr url \<Rightarrow>
             (case filename w i video of
                Inl e \<Rightarrow> (Some e, st)
              | Inr name \<Rightarrow>
                  (case video_get w i url of
                     Inl e \<Rightarrow>
                       download_loop w c rest
                         (st\<lparr>events := events st @ [VideoRequest i url, Status (download_failed name e)]\<rparr>)
                   | Inr content \<Rightarrow>
                       download_loop w c rest
                         (st\<lparr>zip_entries := zip_entries st @ [(name, content)],
                             downloaded_files := downloaded_files st @ [name],
                             events := events st @ [VideoRequest i url]\<rparr>)))))"

section \<open>The run triggered by the button\<close>

datatype outcome =
    NotTriggered
  | Stopped
  | Crashed py_error
  | Finished

text \<open>
  What a run leaves behind: how it ended, what it did, the session's list of file names,
  the entries of \<^verbatim>\<open>zip_file\<close> (\<open>None\<close> when line 150 was never reached), and
  whether \<^verbatim>\<open>st.download_button\<close> offered the archive.
\<close>

record run_result =
  outcome :: outcome
  trace :: "event list"
  session_files :: "string list"
  archive :: "(string \<times> bytes) list option"
  offered :: bool

definition search_failed :: "py_error \<Rightarrow> message" where
  "search_failed e = (if e = RequestException then SearchApiError e else SearchUnexpectedError e)"

text \<open>
  The state when the download loop starts (line 150): an empty archive, the session's
  list reset by line 90, and the search and its messages behind.
\<close>

definition download_start :: "nat list \<Rightarrow> nat \<Rightarrow> dl_state" where
  "download_start reqs n =
     \<lparr>zip_entries = [], downloaded_files = [],
      events = Status Starting # map PageRequest reqs @ [Status (FoundVideos n)]\<rparr>"

text \<open>
  Lines 83 to 208. \<open>clicked\<close> is the button, \<open>prev\<close> the value of
  \<^verbatim>\<open>st.session_state.downloaded_files\<close> before the run.
\<close>

definition run :: "world \<Rightarrow> criteria \<Rightarrow> bool \<Rightarrow> string list \<Rightarrow> run_result" where
  "run w c clicked prev =
     (if \<not> clicked then
        \<lparr>outcome = NotTriggered, trace = [], session_files = prev, archive = None, offered = False\<rparr>
      else if max_duration c \<le> min_duration c then
        \<lparr>outcome = Stopped, trace = [Status ValidationError], session_files = prev, archive = None, offered = False\<rparr>
      else
        (case search w c of
           (Inl e, reqs) \<Rightarrow>
             \<lparr>outcome = Stopped,
              trace = Status Starting # map PageRequest reqs @ [Status (search_failed e)],
              session_files = [], archive = None, offered = False\<rparr>
         | (Inr el, reqs) \<Rightarrow>
             if el = [] then
               \<lparr>outcome = Stopped,
                trace = Status Starting # map PageRequest reqs @ [Status NoVideosFound],
                session_files = [], archive = None, offered = False\<rparr>
             else
               (case download_loop w c (enumerate 0 el) (download_start reqs (length el)) of
                  (Some e, st) \<Rightarrow>
                    \<lparr>outcome = Crashed e, trace = events st,
                     session_files = downloaded_files st, archive = Some (zip_entries st),
                     offered = False\<rparr>
                | (None, st) \<Rightarrow>
                    if downloaded_files st \<noteq> [] then
                      \<lparr>outcome = Finished,
                       trace = events st @ [Status (DownloadedCount (length (downloaded_files st)))],
                       session_files = downloaded_files st, archive = Some (zip_entries st),
                       offered = True\<rparr>
                    else
                      \<lparr>outcome = Finished,
                       trace = events st @ [Status (DownloadedCount (length (downloaded_files st))),
                                            Status NoVideosDownloaded],
                       session_files = downloaded_files st, archive = Some (zip_entries st),
                       offered = False\<rparr>)))"

section \<open>Notions used to state the properties\<close>

text \<open>A raw record is eligible when the tests of the filter loop keep it.\<close>

definition eligible :: "criteria \<Rightarrow> json \<Rightarrow> bool" where
  "eligible c video = (hit_passes c video = Inr True)"

text \<open>
  The records of page \<open>p\<close> as the filter loop iterates over them (none when the page
  could not be fetched or has no iterable \<^verbatim>\<open>hits\<close>), and the records of a list
  of pages in the order the API returned them.
\<close>

definition page_hits :: "world \<Rightarrow> nat \<Rightarrow> json list" where
  "page_hits w p =
     (case search_get w p of
        Inl e \<Rightarrow> []
      | Inr data \<Rightarrow>
          (case py_index data ''hits'' of
             Inl e \<Rightarrow> []
           | Inr hits \<Rightarrow> (case py_iter hits of Inl e \<Rightarrow> [] | Inr records \<Rightarrow> records)))"

definition returned_hits :: "world \<Rightarrow> nat list \<Rightarrow> json list" where
  "returned_hits w reqs = concat (map (page_hits w) reqs)"

text \<open>
  The archive entry the \<open>i\<close>-th selected hit yields when its download succeeds:
  the URL and the file name can be formed and the fetch returns the content.
\<close>

definition entry_of :: "world \<Rightarrow> criteria \<Rightarrow> nat \<times> json \<Rightarrow> (string \<times> bytes) option" where
  "entry_of w c iv =
     (case download_url (snd iv) (video_quality c) of
        Inl e \<Rightarrow> None
      | Inr url \<Rightarrow>
          (case filename w (fst iv) (snd iv) of
             Inl e \<Rightarrow> None
           | Inr name \<Rightarrow>
               (case video_get w (fst iv) url of
                  Inl e \<Rightarrow> None
                | Inr content \<Rightarrow> Some (name, content))))"

text \<open>The download request the \<open>i\<close>-th selected hit leads to.\<close>

definition request_of :: "criteria \<Rightarrow> nat \<times> json \<Rightarrow> event option" where
  "request_of c iv =
     (case download_url (snd iv) (video_quality c) of
        Inl e \<Rightarrow> None
      | Inr url \<Rightarrow> Some (VideoRequest (fst iv) url))"

fun is_video_request :: "event \<Rightarrow> bool" where
  "is_video_request (VideoRequest i url) = True"
| "is_video_request _ = False"

text \<open>A download request in the trace whose fetch succeeded.\<close>

fun fetch_succeeded :: "world \<Rightarrow> event \<Rightarrow> bool" where
  "fetch_succeeded w (VideoRequest i url) = (\<not> isl (video_get w i url))"
| "fetch_succeeded w _ = False"

text \<open>The external identifier a raw record carries, if any.\<close>

definition hit_id :: "json \<Rightarrow> json option" where
  "hit_id video = (case video of JDict kvs \<Rightarrow> map_of kvs ''id'' | _ \<Rightarrow> None)"

section \<open>Example data\<close>

text \<open>A well-formed hit record with one rendition, and a page of hits.\<close>

definition hit :: "int \<Rightarrow> int \<Rightarrow> string \<Rightarrow> json" where
  "hit i d url =
     JDict [(''id'', JInt i), (''duration'', JInt d),
            (''videos'', JDict [(''medium'', JDict [(''url'', JStr url)])])]"

definition page :: "json list \<Rightarrow> json" where
  "page hs = JDict [(''hits'', JList hs)]"

definition demo_criteria :: criteria where
  "demo_criteria =
     \<lparr>search_keyword = ''nature'', min_duration = 10, max_duration = 30,
      video_quality = ''medium'', num_videos_to_download = 5\<rparr>"

text \<open>
  Three hits on the first page, the second too long; the second page is empty; the
  download from \<open>u3\<close> fails.
\<close>

definition demo_world :: world where
  "demo_world =
     \<lparr>search_get = (\<lambda>p. if p = 1 then Inr (page [hit 1 15 ''u1'', hit 2 45 ''u2'', hit 3 20 ''u3''])
                         else Inr (page [])),
      video_get = (\<lambda>i url. if url = JStr ''u3'' then Inl RequestException else Inr ''data''),
      container_str = (\<lambda>v. [])\<rparr>"

text \<open>
  Worlds in which the second page cannot be fetched, in which no record is eligible, and
  in which every download fails.
\<close>

definition second_page_down :: world where
  "second_page_down =
     demo_world\<lparr>search_get := (\<lambda>p. if p = 1 then Inr (page [hit 1 15 ''u1'']) else Inl RequestException)\<rparr>"

definition nothing_found :: world where
  "nothing_found = demo_world\<lparr>search_get := (\<lambda>p. Inr (page [hit 2 45 ''u2'']))\<rparr>"

definition hosts_down :: world where
  "hosts_down = demo_world\<lparr>video_get := (\<lambda>i url. Inl RequestException)\<rparr>"

text \<open>A first page on which two records carry the same identifier.\<close>

definition twin_world :: world where
  "twin_world =
     demo_world\<lparr>search_get := (\<lambda>p. if p = 1 then Inr (page [hit 7 15 ''u1'', hit 7 20 ''u2''])
                                     else Inr (page []))\<rparr>"

text \<open>
  A record with a duration but no \<^verbatim>\<open>videos\<close> key, and a first page that has it
  in second place.
\<close>

definition no_videos_hit :: json where
  "no_videos_hit = JDict [(''id'', JInt 9), (''duration'', JInt 20)]"

definition malformed_world :: world where
  "malformed_world =
     demo_world\<lparr>search_get := (\<lambda>p. if p = 1 then Inr (page [hit 1 15 ''u1'', no_videos_hit, hit 3 20 ''u3''])
                                     else Inr (page []))\<rparr>"

text \<open>
  A record whose requested rendition is present with an empty URL, as the API reports a
  size that is not available; a request to the empty URL fails.
\<close>

definition empty_url_hit :: json where
  "empty_url_hit =
     JDict [(''id'', JInt 5), (''duration'', JInt 15),
            (''videos'',
             JDict [(''large'', JDict [(''url'', JStr []), (''width'', JInt 0),
                                       (''height'', JInt 0), (''size'', JInt 0)])])]"

definition large_criteria :: criteria where
  "large_criteria = demo_criteria\<lparr>video_quality := ''large''\<rparr>"

definition empty_url_world :: world where
  "empty_url_world =
     \<lparr>search_get = (\<lambda>p. if p = 1 then Inr (page [empty_url_hit]) else Inr (page [])),
      video_get = (\<lambda>i url. if url = JStr [] then Inl RequestException else Inr ''data''),
      container_str = (\<lambda>v. [])\<rparr>"

section \<open>Evaluating the examples\<close>

lemmas demo_simps =
  demo_world_def demo_criteria_def hit_def page_def search_def page_body_def hit_passes_def
  py_between_def download_url_def filename_def str_int_def str_nat.simps digit_char_def
  download_failed_def search_failed_def run_def download_start_def enumerate_eq_zip
  eligible_def

section \<open>Input validation\<close>

text \<open>
  Claim C6. When the minimum duration is not below the maximum, a triggered run stops
  with the validation error as its only action: no page is requested from the search API,
  no download is attempted, the session's list of file names is left as it was, and no
  archive is created or offered.
\<close>

theorem validation_error_before_any_request:
  "max_duration c \<le> min_duration c \<Longrightarrow>
     run w c True prev =
       \<lparr>outcome = Stopped, trace = [Status ValidationError], session_files = prev,
        archive = None, offered = False\<rparr>"
  by (simp add: run_def)

theorem validation_error_before_any_request_witness:
  "max_duration (demo_criteria\<lparr>min_duration := 30, max_duration := 10\<rparr>)
     \<le> min_duration (demo_criteria\<lparr>min_duration := 30, max_duration := 10\<rparr>)
   \<and> run demo_world (demo_criteria\<lparr>min_duration := 30, max_duration := 10\<rparr>) True [''old.mp4''] =
       \<lparr>outcome = Stopped, trace = [Status ValidationError], session_files = [''old.mp4''],
        archive = None, offered = False\<rparr>"
  using validation_error_before_any_request
    [of "demo_criteria\<lparr>min_duration := 30, max_duration := 10\<rparr>" demo_world "[''old.mp4'']"]
  by (simp add: demo_criteria_def)

section \<open>The result filter\<close>

lemma filter_hits_take:
  "filter_hits c hits el = Inr el' \<Longrightarrow> int (length el) < num_videos_to_download c \<Longrightarrow>
   el' = el @ take (nat (num_videos_to_download c) - length el) (filter (eligible c) hits)"
proof (induction hits arbitrary: el)
  case Nil
  then show ?case by simp
next
  case (Cons video rest)
  show ?case
  proof (cases "hit_passes c video")
    case (Inl e)
    with Cons.prems show ?thesis by simp
  next
    case (Inr kept)
    show ?thesis
    proof (cases kept)
      case False
      with Inr have "\<not> eligible c video" by (simp add: eligible_def)
      with False Inr Cons show ?thesis by simp
    next
      case True
      with Inr have el: "eligible c video" by (simp add: eligible_def)
      show ?thesis
      proof (cases "num_videos_to_download c \<le> int (length (el @ [video]))")
        case full: True
        with Cons.prems have "nat (num_videos_to_download c) - length el = 1" by simp
        with full Inr True el Cons.prems show ?thesis by simp
      next
        case more: False
        then have lt: "int (length (el @ [video])) < num_videos_to_download c" by simp
        from more Inr True Cons.prems have "filter_hits c rest (el @ [video]) = Inr el'" by simp
        from Cons.IH [OF this lt]
        have "el' = (el @ [video]) @ take (nat (num_videos_to_download c) - length (el @ [video])) (filter (eligible c) rest)" .
        moreover from lt have "nat (num_videos_to_download c) - length el = Suc (nat (num_videos_to_download c) - length (el @ [video]))"
          by simp
        ultimately show ?thesis using el by simp
      qed
    qed
  qed
qed

lemma filter_hits_length:
  assumes "filter_hits c hits el = Inr el'" "int (length el) < num_videos_to_download c"
  shows "int (length el') \<le> num_videos_to_download c"
proof -
  from filter_hits_take [OF assms]
  have "length el' \<le> length el + (nat (num_videos_to_download c) - length el)" by simp
  with assms(2) show ?thesis by linarith
qed

lemma page_body_cases:
  assumes "page_body w c p el = Inr (left, el')"
  shows "(left \<and> el' = el) \<or> (\<not> left \<and> (\<exists>records. filter_hits c records el = Inr el'))"
  using assms unfolding page_body_def
  by (auto split: sum.splits if_splits)

lemma page_body_length:
  assumes "page_body w c p el = Inr (left, el')" "int (length el) < num_videos_to_download c"
  shows "int (length el') \<le> num_videos_to_download c"
  using page_body_cases [OF assms(1)] assms(2) filter_hits_length by fastforce

lemma page_loop_length:
  "fst (page_loop w c pages el reqs) = Inr el' \<Longrightarrow> int (length el) < num_videos_to_download c \<Longrightarrow>
   int (length el') \<le> num_videos_to_download c"
proof (induction pages arbitrary: el reqs)
  case Nil
  then show ?case by simp
next
  case (Cons p pages)
  show ?case
  proof (cases "page_body w c p el")
    case (Inl e)
    with Cons.prems show ?thesis by simp
  next
    case (Inr r)
    obtain left el1 where r: "r = (left, el1)" by (cases r)
    from Inr r Cons.prems(2) have b: "int (length el1) \<le> num_videos_to_download c"
      using page_body_length by blast
    show ?thesis
    proof (cases "left \<or> num_videos_to_download c \<le> int (length el1)")
      case True
      with Inr r Cons.prems b show ?thesis by auto
    next
      case False
      with Inr r Cons.prems have "fst (page_loop w c pages el1 (reqs @ [p])) = Inr el'" by simp
      moreover from False have "int (length el1) < num_videos_to_download c" by simp
      ultimately show ?thesis by (rule Cons.IH)
    qed
  qed
qed

lemma page_loop_requests:
  "\<exists>k. snd (page_loop w c pages el reqs) = reqs @ take k pages"
proof (induction pages arbitrary: el reqs)
  case Nil
  then show ?case by simp
next
  case (Cons p pages)
  show ?case
  proof (cases "page_body w c p el")
    case (Inl e)
    then have "snd (page_loop w c (p # pages) el reqs) = reqs @ take 1 (p # pages)" by simp
    then show ?thesis by blast
  next
    case (Inr r)
    obtain left el1 where r: "r = (left, el1)" by (cases r)
    show ?thesis
    proof (cases "left \<or> num_videos_to_download c \<le> int (length el1)")
      case True
      with Inr r have "snd (page_loop w c (p # pages) el reqs) = reqs @ take 1 (p # pages)" by auto
      then show ?thesis by blast
    next
      case False
      from Cons.IH [of el1 "reqs @ [p]"] obtain k
        where "snd (page_loop w c pages el1 (reqs @ [p])) = (reqs @ [p]) @ take k pages" by blast
      with False Inr r have "snd (page_loop w c (p # pages) el reqs) = reqs @ take (Suc k) (p # pages)"
        by simp
      then show ?thesis by blast
    qed
  qed
qed

text \<open>
  Claim C2. With a requested count of at least one (the slider's range starts at 1), a
  search that returns a list returns at most the requested count of hits; at any
  iteration of the page loop, once the list has reached the requested count after a page,
  the loop ends there and the page just fetched is the last one requested; and the pages
  requested are always an initial part of the pages 1, 2.
\<close>

theorem result_filter_bounded:
  assumes "1 \<le> num_videos_to_download c"
  shows "(\<forall>el reqs. search w c = (Inr el, reqs) \<longrightarrow> int (length el) \<le> num_videos_to_download c)
       \<and> (\<forall>p pages el reqs left el'.
            page_body w c p el = Inr (left, el') \<and> num_videos_to_download c \<le> int (length el')
              \<longrightarrow> page_loop w c (p # pages) el reqs = (Inr el', reqs @ [p]))
       \<and> prefix (snd (search w c)) [1, 2]"
proof (intro conjI allI impI)
  fix el reqs
  assume "search w c = (Inr el, reqs)"
  then have "fst (page_loop w c [1, 2] [] []) = Inr el" by (simp add: search_def)
  moreover from assms have "int (length ([] :: json list)) < num_videos_to_download c" by simp
  ultimately show "int (length el) \<le> num_videos_to_download c" by (rule page_loop_length)
next
  fix p pages el reqs left el'
  assume "page_body w c p el = Inr (left, el') \<and> num_videos_to_download c \<le> int (length el')"
  then show "page_loop w c (p # pages) el reqs = (Inr el', reqs @ [p])" by simp
next
  from page_loop_requests [of w c "[1, 2]" "[]" "[]"]
  obtain k where "snd (search w c) = take k [1, 2]" by (auto simp: search_def)
  then show "prefix (snd (search w c)) [1, 2]" by (simp add: take_is_prefix)
qed

theorem result_filter_bounded_witness:
  "1 \<le> num_videos_to_download (demo_criteria\<lparr>num_videos_to_download := 1\<rparr>)
   \<and> search demo_world (demo_criteria\<lparr>num_videos_to_download := 1\<rparr>) = (Inr [hit 1 15 ''u1''], [1])
   \<and> page_body demo_world (demo_criteria\<lparr>num_videos_to_download := 1\<rparr>) 1 [] = Inr (False, [hit 1 15 ''u1''])
   \<and> int (length [hit 1 15 ''u1'']) \<le> num_videos_to_download (demo_criteria\<lparr>num_videos_to_download := 1\<rparr>)
   \<and> prefix (snd (search demo_world (demo_criteria\<lparr>num_videos_to_download := 1\<rparr>))) [1, 2]"
  using result_filter_bounded [of "demo_criteria\<lparr>num_videos_to_download := 1\<rparr>" demo_world]
  by (simp add: demo_simps)


section \<open>The download loop\<close>

lemma download_loop_entries:
  "download_loop w c ivs st = (crash, st') \<Longrightarrow>
   \<exists>k\<le>length ivs.
     zip_entries st' = zip_entries st @ List.map_filter (entry_of w c) (take k ivs)
     \<and> downloaded_files st' = downloaded_files st @ map fst (List.map_filter (entry_of w c) (take k ivs))
     \<and> filter is_video_request (events st')
           = filter is_video_request (events st) @ List.map_filter (request_of c) (take k ivs)
     \<and> (crash = None \<and> int (length (downloaded_files st)) + int (length ivs) \<le> num_videos_to_download c
            \<longrightarrow> k = length ivs)"
proof (induction ivs arbitrary: st)
  case Nil
  then show ?case by simp
next
  case (Cons iv rest)
  obtain i video where iv: "iv = (i, video)" by (cases iv)
  let ?P = "\<lambda>k. zip_entries st' = zip_entries st @ List.map_filter (entry_of w c) (take k (iv # rest))
     \<and> downloaded_files st' = downloaded_files st @ map fst (List.map_filter (entry_of w c) (take k (iv # rest)))
     \<and> filter is_video_request (events st')
           = filter is_video_request (events st) @ List.map_filter (request_of c) (take k (iv # rest))
     \<and> (crash = None \<and> int (length (downloaded_files st)) + int (length (iv # rest)) \<le> num_videos_to_download c
            \<longrightarrow> k = length (iv # rest))"
  show ?case
  proof (cases "num_videos_to_download c \<le> int (length (downloaded_files st))")
    case True
    with Cons.prems iv have "st' = st" by simp
    with True have "?P 0" by simp
    then show ?thesis by blast
  next
    case guard: False
    show ?thesis
    proof (cases "download_url video (video_quality c)")
      case (Inl e)
      with guard Cons.prems iv have "st' = st" "crash = Some e" by simp_all
      then have "?P 0" by simp
      then show ?thesis by blast
    next
      case url: (Inr url)
      show ?thesis
      proof (cases "filename w i video")
        case (Inl e)
        with guard url Cons.prems iv have "st' = st" "crash = Some e" by simp_all
        then have "?P 0" by simp
        then show ?thesis by blast
      next
        case name: (Inr name)
        show ?thesis
        proof (cases "video_get w i url")
          case (Inl e)
          let ?st1 = "st\<lparr>events := events st @ [VideoRequest i url, Status (download_failed name e)]\<rparr>"
          from Inl guard url name Cons.prems iv
          have "download_loop w c rest ?st1 = (crash, st')" by simp
          from Cons.IH [OF this] obtain k where k: "k \<le> length rest"
            "zip_entries st' = zip_entries ?st1 @ List.map_filter (entry_of w c) (take k rest)"
            "downloaded_files st' = downloaded_files ?st1 @ map fst (List.map_filter (entry_of w c) (take k rest))"
            "filter is_video_request (events st')
               = filter is_video_request (events ?st1) @ List.map_filter (request_of c) (take k rest)"
            "crash = None \<and> int (length (downloaded_files ?st1)) + int (length rest) \<le> num_videos_to_download c
               \<longrightarrow> k = length rest"
            by blast
          from Inl url name iv have e: "entry_of w c iv = None" by (simp add: entry_of_def)
          from url iv have r: "request_of c iv = Some (VideoRequest i url)" by (simp add: request_of_def)
          from k e r have "?P (Suc k)" by simp
          with k(1) show ?thesis by (intro exI [of _ "Suc k"]) simp
        next
          case (Inr content)
          let ?st1 = "st\<lparr>zip_entries := zip_entries st @ [(name, content)],
                         downloaded_files := downloaded_files st @ [name],
                         events := events st @ [VideoRequest i url]\<rparr>"
          from Inr guard url name Cons.prems iv
          have "download_loop w c rest ?st1 = (crash, st')" by simp
          from Cons.IH [OF this] obtain k where k: "k \<le> length rest"
            "zip_entries st' = zip_entries ?st1 @ List.map_filter (entry_of w c) (take k rest)"
            "downloaded_files st' = downloaded_files ?st1 @ map fst (List.map_filter (entry_of w c) (take k rest))"
            "filter is_video_request (events st')
               = filter is_video_request (events ?st1) @ List.map_filter (request_of c) (take k rest)"
            "crash = None \<and> int (length (downloaded_files ?st1)) + int (length rest) \<le> num_videos_to_download c
               \<longrightarrow> k = length rest"
            by blast
          from Inr url name iv have e: "entry_of w c iv = Some (name, content)" by (simp add: entry_of_def)
          from url iv have r: "request_of c iv = Some (VideoRequest i url)" by (simp add: request_of_def)
          from k e r have "?P (Suc k)" by simp
          with k(1) show ?thesis by (intro exI [of _ "Suc k"]) simp
        qed
      qed
    qed
  qed
qed

lemma download_loop_succeeded:
  "download_loop w c ivs st = (crash, st') \<Longrightarrow>
   length (zip_entries st') + length (filter (fetch_succeeded w) (events st))
     = length (zip_entries st) + length (filter (fetch_succeeded w) (events st'))"
proof (induction ivs arbitrary: st)
  case Nil
  then show ?case by simp
next
  case (Cons iv rest)
  obtain i video where iv: "iv = (i, video)" by (cases iv)
  show ?case
  proof (cases "num_videos_to_download c \<le> int (length (downloaded_files st))")
    case True
    with Cons.prems iv show ?thesis by simp
  next
    case guard: False
    show ?thesis
    proof (cases "download_url video (video_quality c)")
      case (Inl e)
      with guard Cons.prems iv show ?thesis by simp
    next
      case url: (Inr url)
      show ?thesis
      proof (cases "filename w i video")
        case (Inl e)
        with guard url Cons.prems iv show ?thesis by simp
      next
        case name: (Inr name)
        show ?thesis
        proof (cases "video_get w i url")
          case (Inl e)
          let ?st1 = "st\<lparr>events := events st @ [VideoRequest i url, Status (download_failed name e)]\<rparr>"
          from Inl guard url name Cons.prems iv
          have "download_loop w c rest ?st1 = (crash, st')" by simp
          from Cons.IH [OF this] Inl show ?thesis by simp
        next
          case (Inr content)
          let ?st1 = "st\<lparr>zip_entries := zip_entries st @ [(name, content)],
                         downloaded_files := downloaded_files st @ [name],
                         events := events st @ [VideoRequest i url]\<rparr>"
          from Inr guard url name Cons.prems iv
          have "download_loop w c rest ?st1 = (crash, st')" by simp
          from Cons.IH [OF this] Inr show ?thesis by simp
        qed
      qed
    qed
  qed
qed

lemma download_loop_bound:
  "download_loop w c ivs st = (crash, st') \<Longrightarrow>
   int (length (downloaded_files st)) \<le> num_videos_to_download c \<Longrightarrow>
   int (length (downloaded_files st')) \<le> num_videos_to_download c"
proof (induction ivs arbitrary: st)
  case Nil
  then show ?case by simp
next
  case (Cons iv rest)
  obtain i video where iv: "iv = (i, video)" by (cases iv)
  show ?case
  proof (cases "num_videos_to_download c \<le> int (length (downloaded_files st))")
    case True
    with Cons.prems iv show ?thesis by simp
  next
    case guard: False
    show ?thesis
    proof (cases "download_url video (video_quality c)")
      case (Inl e)
      with guard Cons.prems iv show ?thesis by simp
    next
      case url: (Inr url)
      show ?thesis
      proof (cases "filename w i video")
        case (Inl e)
        with guard url Cons.prems iv show ?thesis by simp
      next
        case name: (Inr name)
        show ?thesis
        proof (cases "video_get w i url")
          case (Inl e)
          let ?st1 = "st\<lparr>events := events st @ [VideoRequest i url, Status (download_failed name e)]\<rparr>"
          from Inl guard url name Cons.prems iv
          have "download_loop w c rest ?st1 = (crash, st')" by simp
          moreover from Cons.prems(2) have "int (length (downloaded_files ?st1)) \<le> num_videos_to_download c" by simp
          ultimately show ?thesis by (rule Cons.IH)
        next
          case (Inr content)
          let ?st1 = "st\<lparr>zip_entries := zip_entries st @ [(name, content)],
                         downloaded_files := downloaded_files st @ [name],
                         events := events st @ [VideoRequest i url]\<rparr>"
          from Inr guard url name Cons.prems iv
          have "download_loop w c rest ?st1 = (crash, st')" by simp
          moreover from guard have "int (length (downloaded_files ?st1)) \<le> num_videos_to_download c" by simp
          ultimately show ?thesis by (rule Cons.IH)
        qed
      qed
    qed
  qed
qed

section \<open>The whole run\<close>

lemma run_download_phase:
  assumes "archive (run w c clicked prev) = Some entries"
  obtains el reqs crash st where
    "clicked" "min_duration c < max_duration c"
    "search w c = (Inr el, reqs)" "el \<noteq> []"
    "download_loop w c (enumerate 0 el) (download_start reqs (length el)) = (crash, st)"
    "entries = zip_entries st"
    "session_files (run w c clicked prev) = downloaded_files st"
    "outcome (run w c clicked prev) = (case crash of Some e \<Rightarrow> Crashed e | None \<Rightarrow> Finished)"
    "\<exists>msgs. trace (run w c clicked prev) = events st @ map Status msgs"
    "offered (run w c clicked prev) = (crash = None \<and> downloaded_files st \<noteq> [])"
proof -
  from assms have clicked: clicked and range: "min_duration c < max_duration c"
    by (auto simp: run_def split: if_splits)
  obtain res reqs where s: "search w c = (res, reqs)" by (cases "search w c")
  from assms clicked range s obtain el where el: "res = Inr el" "el \<noteq> []"
    by (cases res) (auto simp: run_def split: if_splits)
  obtain crash st where
    d: "download_loop w c (enumerate 0 el) (download_start reqs (length el)) = (crash, st)"
    by (cases "download_loop w c (enumerate 0 el) (download_start reqs (length el))")
  show thesis
  proof (cases crash)
    case None
    show ?thesis
    proof (rule that [OF clicked range s [unfolded el(1)] el(2) d])
      from assms clicked range s el d None show "entries = zip_entries st"
        by (auto simp: run_def split: if_splits)
      from clicked range s el d None show "session_files (run w c clicked prev) = downloaded_files st"
        by (simp add: run_def)
      from clicked range s el d None
      show "outcome (run w c clicked prev) = (case crash of Some e \<Rightarrow> Crashed e | None \<Rightarrow> Finished)"
        by (simp add: run_def)
      show "\<exists>msgs. trace (run w c clicked prev) = events st @ map Status msgs"
      proof (cases "downloaded_files st = []")
        case True
        with clicked range s el d None
        have "trace (run w c clicked prev)
                = events st @ map Status [DownloadedCount (length (downloaded_files st)), NoVideosDownloaded]"
          by (simp add: run_def)
        then show ?thesis by blast
      next
        case False
        with clicked range s el d None
        have "trace (run w c clicked prev)
                = events st @ map Status [DownloadedCount (length (downloaded_files st))]"
          by (simp add: run_def)
        then show ?thesis by blast
      qed
      from clicked range s el d None
      show "offered (run w c clicked prev) = (crash = None \<and> downloaded_files st \<noteq> [])"
        by (simp add: run_def)
    qed
  next
    case (Some e)
    show ?thesis
    proof (rule that [OF clicked range s [unfolded el(1)] el(2) d])
      from assms clicked range s el d Some show "entries = zip_entries st"
        by (auto simp: run_def split: if_splits)
      from clicked range s el d Some show "session_files (run w c clicked prev) = downloaded_files st"
        by (simp add: run_def)
      from clicked range s el d Some
      show "outcome (run w c clicked prev) = (case crash of Some e \<Rightarrow> Crashed e | None \<Rightarrow> Finished)"
        by (simp add: run_def)
      from clicked range s el d Some
      have "trace (run w c clicked prev) = events st @ map Status []" by (simp add: run_def)
      then show "\<exists>msgs. trace (run w c clicked prev) = events st @ map Status msgs" by blast
      from clicked range s el d Some
      show "offered (run w c clicked prev) = (crash = None \<and> downloaded_files st \<noteq> [])"
        by (simp add: run_def)
    qed
  qed
qed

lemma no_fetch_in_statuses: "filter (fetch_succeeded w) (map Status msgs) = []"
  by (induction msgs) simp_all

lemma no_fetch_in_pages: "filter (fetch_succeeded w) (map PageRequest reqs) = []"
  by (induction reqs) simp_all

lemma no_request_in_statuses: "filter is_video_request (map Status msgs) = []"
  by (induction msgs) simp_all

lemma no_request_in_pages: "filter is_video_request (map PageRequest reqs) = []"
  by (induction reqs) simp_all

lemma search_length:
  assumes "1 \<le> num_videos_to_download c" "search w c = (Inr el, reqs)"
  shows "int (length el) \<le> num_videos_to_download c"
proof -
  from assms(2) have "fst (page_loop w c [1, 2] [] []) = Inr el" by (simp add: search_def)
  moreover from assms(1) have "int (length ([] :: json list)) < num_videos_to_download c" by simp
  ultimately show ?thesis by (rule page_loop_length)
qed

lemma length_map_filter: "length (List.map_filter f xs) = length (filter (\<lambda>x. f x \<noteq> None) xs)"
  by (simp add: List.map_filter_def)

subsection \<open>The example run\<close>

lemma demo_search:
  "search demo_world demo_criteria = (Inr [hit 1 15 ''u1'', hit 3 20 ''u3''], [1, 2])"
  by (simp add: demo_simps)

lemma demo_run:
  "run demo_world demo_criteria True prev =
     \<lparr>outcome = Finished,
      trace = [Status Starting, PageRequest 1, PageRequest 2, Status (FoundVideos 2),
               VideoRequest 0 (JStr ''u1''), VideoRequest 1 (JStr ''u3''),
               Status (DownloadApiError ''pixabay_video_3.mp4'' RequestException),
               Status (DownloadedCount 1)],
      session_files = [''pixabay_video_1.mp4''],
      archive = Some [(''pixabay_video_1.mp4'', ''data'')], offered = True\<rparr>"
  by (simp add: demo_simps)

lemma demo_video_get:
  "video_get demo_world i url = (if url = JStr ''u3'' then Inl RequestException else Inr ''data'')"
  by (simp add: demo_world_def)

lemma demo_entry_0:
  "entry_of demo_world demo_criteria (0, hit 1 15 ''u1'') = Some (''pixabay_video_1.mp4'', ''data'')"
  by (simp add: demo_simps entry_of_def)

lemma demo_entry_1:
  "entry_of demo_world demo_criteria (Suc 0, hit 3 20 ''u3'') = None"
  by (simp add: demo_simps entry_of_def)

subsection \<open>Size of the archive\<close>

text \<open>
  Claim C3. With a requested count of at least one, whenever the run has built an archive,
  the number of its entries equals the number of download requests of the run whose fetch
  succeeded, and does not exceed the requested count; in a run that reaches its end, that
  number is the number of selected hits for which the fetch succeeded.
\<close>

theorem archive_entries_count:
  assumes "1 \<le> num_videos_to_download c" and "archive (run w c clicked prev) = Some entries"
  shows "length entries = length (filter (fetch_succeeded w) (trace (run w c clicked prev)))
       \<and> int (length entries) \<le> num_videos_to_download c
       \<and> (outcome (run w c clicked prev) = Finished \<longrightarrow>
            length entries
              = length (filter (\<lambda>iv. entry_of w c iv \<noteq> None) (enumerate 0 (projr (fst (search w c))))))"
proof -
  from assms(2) obtain el reqs crash st where
    s: "search w c = (Inr el, reqs)" and
    d: "download_loop w c (enumerate 0 el) (download_start reqs (length el)) = (crash, st)" and
    e: "entries = zip_entries st" and
    out: "outcome (run w c clicked prev) = (case crash of Some e \<Rightarrow> Crashed e | None \<Rightarrow> Finished)" and
    tr: "\<exists>msgs. trace (run w c clicked prev) = events st @ map Status msgs"
    by (rule run_download_phase)
  from tr obtain msgs where msgs: "trace (run w c clicked prev) = events st @ map Status msgs" by blast
  from download_loop_entries [OF d] obtain k where k:
    "zip_entries st = List.map_filter (entry_of w c) (take k (enumerate 0 el))"
    "downloaded_files st = map fst (List.map_filter (entry_of w c) (take k (enumerate 0 el)))"
    "crash = None \<and> int (length el) \<le> num_videos_to_download c \<longrightarrow> k = length el"
    by (auto simp: download_start_def)
  have "length entries = length (filter (fetch_succeeded w) (trace (run w c clicked prev)))"
    using download_loop_succeeded [OF d] e msgs
    by (simp add: download_start_def no_fetch_in_statuses no_fetch_in_pages)
  moreover have "int (length entries) \<le> num_videos_to_download c"
  proof -
    from assms(1) have "int (length (downloaded_files (download_start reqs (length el)))) \<le> num_videos_to_download c"
      by (simp add: download_start_def)
    with d have "int (length (downloaded_files st)) \<le> num_videos_to_download c"
      by (rule download_loop_bound)
    with k e show ?thesis by simp
  qed
  moreover have "length entries
      = length (filter (\<lambda>iv. entry_of w c iv \<noteq> None) (enumerate 0 (projr (fst (search w c)))))"
    if "outcome (run w c clicked prev) = Finished"
  proof -
    from that out have "crash = None" by (cases crash) simp_all
    moreover from assms(1) s have "int (length el) \<le> num_videos_to_download c" by (rule search_length)
    ultimately have "k = length el" using k(3) by simp
    with k(1) e s show ?thesis by (simp add: length_map_filter)
  qed
  ultimately show ?thesis by blast
qed

theorem archive_entries_count_witness:
  "1 \<le> num_videos_to_download demo_criteria
   \<and> archive (run demo_world demo_criteria True []) = Some [(''pixabay_video_1.mp4'', ''data'')]
   \<and> outcome (run demo_world demo_criteria True []) = Finished
   \<and> length [(''pixabay_video_1.mp4'', ''data'')]
       = length (filter (fetch_succeeded demo_world) (trace (run demo_world demo_criteria True [])))
   \<and> int (length [(''pixabay_video_1.mp4'', ''data'')]) \<le> num_videos_to_download demo_criteria
   \<and> length [(''pixabay_video_1.mp4'', ''data'')]
       = length (filter (\<lambda>iv. entry_of demo_world demo_criteria iv \<noteq> None)
                   (enumerate 0 (projr (fst (search demo_world demo_criteria)))))"
  using archive_entries_count
    [of demo_criteria demo_world True "[]" "[(''pixabay_video_1.mp4'', ''data'')]"]
  by (simp add: demo_run demo_search demo_video_get demo_entry_0 demo_entry_1)
    (simp add: demo_criteria_def)

subsection \<open>A failed download\<close>

lemma demo_filename_1: "filename demo_world (Suc 0) (hit 3 20 ''u3'') = Inr ''pixabay_video_3.mp4''"
  by (simp add: demo_simps)

lemma demo_url_1: "download_url (hit 3 20 ''u3'') (video_quality demo_criteria) = Inr (JStr ''u3'')"
  by (simp add: demo_simps)

text \<open>
  Claim C4. When the count guard lets the \<open>i\<close>-th selected hit through, its URL and
  file name are formed, and the fetch raises an exception, the loop goes on with the
  remaining hits from a state that differs only by the request and the error message added
  to the trace: the entries of the archive and the list of downloaded file names are those
  from before the failed item. A transport or HTTP error is reported as an API error for
  that file.
\<close>

theorem failed_download_is_skipped:
  assumes "\<not> num_videos_to_download c \<le> int (length (downloaded_files st))"
    and "download_url video (video_quality c) = Inr url"
    and "filename w i video = Inr name"
    and "video_get w i url = Inl e"
  shows "download_loop w c ((i, video) # rest) st
           = download_loop w c rest
               (st\<lparr>events := events st @ [VideoRequest i url, Status (download_failed name e)]\<rparr>)
       \<and> zip_entries (st\<lparr>events := events st @ [VideoRequest i url, Status (download_failed name e)]\<rparr>)
           = zip_entries st
       \<and> downloaded_files (st\<lparr>events := events st @ [VideoRequest i url, Status (download_failed name e)]\<rparr>)
           = downloaded_files st
       \<and> download_failed name RequestException = DownloadApiError name RequestException"
  using assms by (simp add: download_failed_def)

theorem failed_download_is_skipped_witness:
  "\<not> num_videos_to_download demo_criteria \<le> int (length (downloaded_files (download_start [1, 2] 2)))
   \<and> download_url (hit 3 20 ''u3'') (video_quality demo_criteria) = Inr (JStr ''u3'')
   \<and> filename demo_world (Suc 0) (hit 3 20 ''u3'') = Inr ''pixabay_video_3.mp4''
   \<and> video_get demo_world (Suc 0) (JStr ''u3'') = Inl RequestException
   \<and> download_loop demo_world demo_criteria [(Suc 0, hit 3 20 ''u3''), (2, hit 1 15 ''u1'')]
         (download_start [1, 2] 2)
       = download_loop demo_world demo_criteria [(2, hit 1 15 ''u1'')]
           ((download_start [1, 2] 2)
              \<lparr>events := events (download_start [1, 2] 2)
                 @ [VideoRequest (Suc 0) (JStr ''u3''),
                    Status (download_failed ''pixabay_video_3.mp4'' RequestException)]\<rparr>)"
proof -
  have h1: "\<not> num_videos_to_download demo_criteria
              \<le> int (length (downloaded_files (download_start [1, 2] 2)))"
    by (simp add: demo_criteria_def download_start_def)
  have h4: "video_get demo_world (Suc 0) (JStr ''u3'') = Inl RequestException"
    by (simp add: demo_video_get)
  note r = failed_download_is_skipped
    [OF h1 demo_url_1 demo_filename_1 h4, of "[(2, hit 1 15 ''u1'')]", THEN conjunct1]
  show ?thesis by (intro conjI h1 demo_url_1 demo_filename_1 h4 r)
qed

subsection \<open>A failed search\<close>

lemma second_page_down_search:
  "search second_page_down demo_criteria = (Inl RequestException, [1, 2])"
  by (simp add: second_page_down_def demo_simps)

text \<open>
  Claim C5. With valid durations, if the fetch of any page the run requests raises an
  exception, the run stops: that page is the last one requested, the error message is the
  last action, no download is requested, the list of selected hits is not used, and no
  archive is created or offered.
\<close>

theorem search_failure_is_fatal:
  assumes "min_duration c < max_duration c"
    and "p \<in> set (snd (search w c))"
    and "search_get w p = Inl e"
  shows "run w c True prev =
           \<lparr>outcome = Stopped,
            trace = Status Starting # map PageRequest (snd (search w c)) @ [Status (search_failed e)],
            session_files = [], archive = None, offered = False\<rparr>
       \<and> last (snd (search w c)) = p"
proof -
  have body: "page_body w c p el = Inl e" for el
    using assms(3) by (simp add: page_body_def)
  have s: "search w c = (Inl e, snd (search w c)) \<and> last (snd (search w c)) = p"
  proof (cases "page_body w c 1 []")
    case (Inl e1)
    then have "search w c = (Inl e1, [1])" by (simp add: search_def)
    with assms(2) body [of "[]"] Inl show ?thesis by simp
  next
    case (Inr r)
    obtain left el1 where r: "r = (left, el1)" by (cases r)
    from Inr body [of "[]"] have p1: "p \<noteq> 1" by auto
    show ?thesis
    proof (cases "left \<or> num_videos_to_download c \<le> int (length el1)")
      case True
      with Inr r have "search w c = (Inr el1, [1])" by (auto simp: search_def)
      with assms(2) p1 show ?thesis by simp
    next
      case False
      with Inr r have l: "search w c = page_loop w c [2] el1 [1]" by (simp add: search_def)
      have "set (snd (page_loop w c [2] el1 [1])) \<subseteq> {1, 2}"
        by (auto split: sum.splits if_splits prod.splits)
      with assms(2) p1 l have p2: "p = 2" by auto
      with body [of el1] l show ?thesis by simp
    qed
  qed
  then have "search w c = (Inl e, snd (search w c))" by simp
  with assms(1) have "run w c True prev =
           \<lparr>outcome = Stopped,
            trace = Status Starting # map PageRequest (snd (search w c)) @ [Status (search_failed e)],
            session_files = [], archive = None, offered = False\<rparr>"
    unfolding run_def by (cases "search w c") simp
  with s show ?thesis by simp
qed

theorem search_failure_is_fatal_witness:
  "min_duration demo_criteria < max_duration demo_criteria
   \<and> 2 \<in> set (snd (search second_page_down demo_criteria))
   \<and> search_get second_page_down 2 = Inl RequestException
   \<and> run second_page_down demo_criteria True [''old.mp4''] =
        \<lparr>outcome = Stopped,
         trace = [Status Starting, PageRequest 1, PageRequest 2,
                  Status (SearchApiError RequestException)],
         session_files = [], archive = None, offered = False\<rparr>"
proof -
  have h1: "min_duration demo_criteria < max_duration demo_criteria"
    by (simp add: demo_criteria_def)
  have h2: "2 \<in> set (snd (search second_page_down demo_criteria))"
    by (simp add: second_page_down_search)
  have h3: "search_get second_page_down 2 = Inl RequestException"
    by (simp add: second_page_down_def demo_world_def)
  from search_failure_is_fatal [OF h1 h2 h3, of "[''old.mp4'']"]
  have "run second_page_down demo_criteria True [''old.mp4''] =
        \<lparr>outcome = Stopped,
         trace = [Status Starting, PageRequest 1, PageRequest 2,
                  Status (SearchApiError RequestException)],
         session_files = [], archive = None, offered = False\<rparr>"
    by (simp add: second_page_down_search search_failed_def)
  with h1 h2 h3 show ?thesis by simp
qed

subsection \<open>Nothing found, nothing downloaded\<close>

lemma nothing_found_search: "search nothing_found demo_criteria = (Inr [], [1, 2])"
  by (simp add: nothing_found_def demo_simps)

lemma hosts_down_run:
  "run hosts_down demo_criteria True prev =
     \<lparr>outcome = Finished,
      trace = [Status Starting, PageRequest 1, PageRequest 2, Status (FoundVideos 2),
               VideoRequest 0 (JStr ''u1''),
               Status (DownloadApiError ''pixabay_video_1.mp4'' RequestException),
               VideoRequest 1 (JStr ''u3''),
               Status (DownloadApiError ''pixabay_video_3.mp4'' RequestException),
               Status (DownloadedCount 0), Status NoVideosDownloaded],
      session_files = [], archive = Some [], offered = False\<rparr>"
  by (simp add: hosts_down_def demo_simps)

text \<open>
  Claim C7. With valid durations, a search that succeeds with no eligible hit ends the run
  with the warning that nothing was found: no error message, no download request, no
  archive. Whenever the session's list of downloaded files is empty after a run, no
  archive is offered; a run that reaches its end with nothing downloaded ends with the
  warning that no video was downloaded.
\<close>

theorem empty_results_offer_no_archive:
  "(min_duration c < max_duration c \<and> fst (search w c) = Inr [] \<longrightarrow>
      run w c True prev =
        \<lparr>outcome = Stopped,
         trace = Status Starting # map PageRequest (snd (search w c)) @ [Status NoVideosFound],
         session_files = [], archive = None, offered = False\<rparr>)
   \<and> (session_files (run w c clicked prev) = [] \<longrightarrow> \<not> offered (run w c clicked prev))
   \<and> (outcome (run w c clicked prev) = Finished \<and> session_files (run w c clicked prev) = [] \<longrightarrow>
        last (trace (run w c clicked prev)) = Status NoVideosDownloaded)"
proof (intro conjI impI)
  assume "min_duration c < max_duration c \<and> fst (search w c) = Inr []"
  then show "run w c True prev =
        \<lparr>outcome = Stopped,
         trace = Status Starting # map PageRequest (snd (search w c)) @ [Status NoVideosFound],
         session_files = [], archive = None, offered = False\<rparr>"
    unfolding run_def by (cases "search w c") simp
next
  assume "session_files (run w c clicked prev) = []"
  then show "\<not> offered (run w c clicked prev)"
    unfolding run_def
    by (cases "search w c") (auto split: if_splits sum.splits prod.splits option.splits)
next
  assume "outcome (run w c clicked prev) = Finished \<and> session_files (run w c clicked prev) = []"
  then show "last (trace (run w c clicked prev)) = Status NoVideosDownloaded"
    unfolding run_def
    by (cases "search w c") (auto split: if_splits sum.splits prod.splits option.splits)
qed

theorem empty_results_offer_no_archive_witness:
  "(min_duration demo_criteria < max_duration demo_criteria
    \<and> fst (search nothing_found demo_criteria) = Inr []
    \<and> run nothing_found demo_criteria True [''old.mp4''] =
        \<lparr>outcome = Stopped,
         trace = [Status Starting, PageRequest 1, PageRequest 2, Status NoVideosFound],
         session_files = [], archive = None, offered = False\<rparr>)
   \<and> (outcome (run hosts_down demo_criteria True [''old.mp4'']) = Finished
      \<and> session_files (run hosts_down demo_criteria True [''old.mp4'']) = []
      \<and> \<not> offered (run hosts_down demo_criteria True [''old.mp4''])
      \<and> last (trace (run hosts_down demo_criteria True [''old.mp4''])) = Status NoVideosDownloaded)"
proof -
  have h1: "min_duration demo_criteria < max_duration demo_criteria"
    by (simp add: demo_criteria_def)
  have h2: "fst (search nothing_found demo_criteria) = Inr []"
    by (simp add: nothing_found_search)
  have h3: "outcome (run hosts_down demo_criteria True [''old.mp4'']) = Finished"
    and h4: "session_files (run hosts_down demo_criteria True [''old.mp4'']) = []"
    by (simp_all add: hosts_down_run)
  from empty_results_offer_no_archive
      [where c = demo_criteria and w = nothing_found and prev = "[''old.mp4'']"] h1 h2
  have a: "run nothing_found demo_criteria True [''old.mp4''] =
        \<lparr>outcome = Stopped,
         trace = [Status Starting, PageRequest 1, PageRequest 2, Status NoVideosFound],
         session_files = [], archive = None, offered = False\<rparr>"
    by (simp add: nothing_found_search)
  from empty_results_offer_no_archive
      [where c = demo_criteria and w = hosts_down and clicked = True and prev = "[''old.mp4'']"] h3 h4
  have b: "\<not> offered (run hosts_down demo_criteria True [''old.mp4''])"
    and c: "last (trace (run hosts_down demo_criteria True [''old.mp4''])) = Status NoVideosDownloaded"
    by blast+
  from h1 h2 h3 h4 a b c show ?thesis by blast
qed

section \<open>Order of processing\<close>

lemma page_body_hits:
  assumes "page_body w c p el = Inr (left, el')"
  shows "(left \<and> el' = el \<and> page_hits w p = [])
       \<or> (\<not> left \<and> filter_hits c (page_hits w p) el = Inr el')"
proof -
  from assms obtain data where data: "search_get w p = Inr data"
    by (cases "search_get w p") (simp_all add: page_body_def)
  from assms data obtain kvs where kvs: "data = JDict kvs"
    by (cases data) (simp_all add: page_body_def)
  show ?thesis
  proof (cases "map_of kvs ''hits''")
    case None
    with assms data kvs show ?thesis
      by (simp add: page_body_def page_hits_def)
  next
    case (Some hits)
    show ?thesis
    proof (cases "truthy hits")
      case False
      with assms data kvs Some have "left" "el' = el" "py_len hits \<noteq> Inl TypeError"
        by (auto simp: page_body_def split: sum.splits)
      moreover from this(3) False have "py_iter hits = Inr []" by (cases hits) simp_all
      ultimately show ?thesis using data kvs Some by (simp add: page_hits_def)
    next
      case True
      with assms data kvs Some show ?thesis
        by (auto simp: page_body_def page_hits_def split: sum.splits)
    qed
  qed
qed

lemma page_loop_take:
  "page_loop w c pages el reqs = (Inr el', reqs') \<Longrightarrow> int (length el) < num_videos_to_download c \<Longrightarrow>
   \<exists>ps. reqs' = reqs @ ps
     \<and> el' = el @ take (nat (num_videos_to_download c) - length el)
                    (filter (eligible c) (concat (map (page_hits w) ps)))"
proof (induction pages arbitrary: el reqs)
  case Nil
  then have "reqs' = reqs @ [] \<and> el' = el @ take (nat (num_videos_to_download c) - length el)
                    (filter (eligible c) (concat (map (page_hits w) [])))" by simp
  then show ?case by blast
next
  case (Cons p pages)
  let ?n = "nat (num_videos_to_download c)"
  from Cons.prems(1) obtain left el1 where body: "page_body w c p el = Inr (left, el1)"
    by (cases "page_body w c p el") auto
  have el1: "el1 = el @ take (?n - length el) (filter (eligible c) (page_hits w p))"
    using page_body_hits [OF body] filter_hits_take [OF _ Cons.prems(2)] by auto
  show ?case
  proof (cases "left \<or> num_videos_to_download c \<le> int (length el1)")
    case True
    with body Cons.prems(1) have "reqs' = reqs @ [p]" "el' = el1" by auto
    with el1 have "reqs' = reqs @ [p] \<and> el' = el @ take (?n - length el)
                    (filter (eligible c) (concat (map (page_hits w) [p])))" by simp
    then show ?thesis by blast
  next
    case False
    then have lt: "int (length el1) < num_videos_to_download c" by simp
    from False body Cons.prems(1) have "page_loop w c pages el1 (reqs @ [p]) = (Inr el', reqs')" by simp
    from Cons.IH [OF this lt] obtain ps where ps: "reqs' = (reqs @ [p]) @ ps"
      "el' = el1 @ take (?n - length el1) (filter (eligible c) (concat (map (page_hits w) ps)))"
      by blast
    let ?A = "filter (eligible c) (page_hits w p)"
    from lt el1 have "length (take (?n - length el) ?A) < ?n - length el" by simp
    then have short: "length ?A < ?n - length el" by simp
    then have all: "take (?n - length el) ?A = ?A" by simp
    with el1 have l1: "length el1 = length el + length ?A" by simp
    from ps(2) el1 all short l1
    have "el' = el @ take (?n - length el)
                    (filter (eligible c) (concat (map (page_hits w) (p # ps))))"
      by simp
    with ps(1) have "reqs' = reqs @ (p # ps) \<and> el' = el @ take (?n - length el)
                    (filter (eligible c) (concat (map (page_hits w) (p # ps))))" by simp
    then show ?thesis by blast
  qed
qed

lemma search_take:
  assumes "1 \<le> num_videos_to_download c" "search w c = (Inr el, reqs)"
  shows "el = take (nat (num_videos_to_download c)) (filter (eligible c) (returned_hits w reqs))"
proof -
  from assms(1) have "int (length ([] :: json list)) < num_videos_to_download c" by simp
  from page_loop_take [OF assms(2) [unfolded search_def] this]
  show ?thesis by (simp add: returned_hits_def)
qed

lemma download_loop_all_requested:
  "download_loop w c ivs st = (None, st') \<Longrightarrow>
   int (length (downloaded_files st)) + int (length ivs) \<le> num_videos_to_download c \<Longrightarrow>
   length (List.map_filter (request_of c) ivs) = length ivs"
proof (induction ivs arbitrary: st)
  case Nil
  then show ?case by simp
next
  case (Cons iv rest)
  obtain i video where iv: "iv = (i, video)" by (cases iv)
  from Cons.prems(2) have guard: "\<not> num_videos_to_download c \<le> int (length (downloaded_files st))"
    by simp
  from guard Cons.prems(1) iv obtain url where url: "download_url video (video_quality c) = Inr url"
    by (cases "download_url video (video_quality c)") simp_all
  from guard url Cons.prems(1) iv obtain name where name: "filename w i video = Inr name"
    by (cases "filename w i video") simp_all
  from url iv have r: "request_of c iv = Some (VideoRequest i url)" by (simp add: request_of_def)
  show ?case
  proof (cases "video_get w i url")
    case (Inl e)
    let ?st1 = "st\<lparr>events := events st @ [VideoRequest i url, Status (download_failed name e)]\<rparr>"
    from Inl guard url name Cons.prems(1) iv
    have "download_loop w c rest ?st1 = (None, st')" by simp
    moreover from Cons.prems(2)
    have "int (length (downloaded_files ?st1)) + int (length rest) \<le> num_videos_to_download c" by simp
    ultimately have "length (List.map_filter (request_of c) rest) = length rest" by (rule Cons.IH)
    with r show ?thesis by simp
  next
    case (Inr content)
    let ?st1 = "st\<lparr>zip_entries := zip_entries st @ [(name, content)],
                   downloaded_files := downloaded_files st @ [name],
                   events := events st @ [VideoRequest i url]\<rparr>"
    from Inr guard url name Cons.prems(1) iv
    have "download_loop w c rest ?st1 = (None, st')" by simp
    moreover from Cons.prems(2)
    have "int (length (downloaded_files ?st1)) + int (length rest) \<le> num_videos_to_download c" by simp
    ultimately have "length (List.map_filter (request_of c) rest) = length rest" by (rule Cons.IH)
    with r show ?thesis by simp
  qed
qed

lemma finished_has_archive:
  assumes "outcome (run w c clicked prev) = Finished"
  shows "\<exists>entries. archive (run w c clicked prev) = Some entries"
  using assms unfolding run_def
  by (cases "search w c") (auto split: if_splits sum.splits prod.splits option.splits)

lemma demo_returned:
  "returned_hits demo_world [1, 2] = [hit 1 15 ''u1'', hit 2 45 ''u2'', hit 3 20 ''u3'']"
  by (simp add: returned_hits_def page_hits_def demo_world_def page_def)

text \<open>
  Claim C9. With a requested count of at least one, in a run that reaches its end the
  selected hits are the first eligible records, up to the requested count, of the pages
  requested, in the order the API returned them; the download requests of the run are one
  per selected hit, in that order; and the entries of the archive, like the session's list
  of file names, are those of the selected hits whose download succeeded, in that order.
\<close>

theorem archive_in_search_order:
  assumes "1 \<le> num_videos_to_download c"
    and "outcome (run w c clicked prev) = Finished"
    and "search w c = (Inr el, reqs)"
  shows "el = take (nat (num_videos_to_download c)) (filter (eligible c) (returned_hits w reqs))
       \<and> filter is_video_request (trace (run w c clicked prev))
           = List.map_filter (request_of c) (enumerate 0 el)
       \<and> length (filter is_video_request (trace (run w c clicked prev))) = length el
       \<and> archive (run w c clicked prev) = Some (List.map_filter (entry_of w c) (enumerate 0 el))
       \<and> session_files (run w c clicked prev)
           = map fst (List.map_filter (entry_of w c) (enumerate 0 el))"
proof -
  from assms(2) obtain entries where a: "archive (run w c clicked prev) = Some entries"
    using finished_has_archive by blast
  from a obtain el0 reqs0 crash st where
    s: "search w c = (Inr el0, reqs0)" and
    d: "download_loop w c (enumerate 0 el0) (download_start reqs0 (length el0)) = (crash, st)" and
    e: "entries = zip_entries st" and
    f: "session_files (run w c clicked prev) = downloaded_files st" and
    out: "outcome (run w c clicked prev) = (case crash of Some e \<Rightarrow> Crashed e | None \<Rightarrow> Finished)" and
    tr: "\<exists>msgs. trace (run w c clicked prev) = events st @ map Status msgs"
    by (rule run_download_phase)
  from s assms(3) have same: "el0 = el" "reqs0 = reqs" by simp_all
  from tr obtain msgs where msgs: "trace (run w c clicked prev) = events st @ map Status msgs" by blast
  from assms(2) out have crash: "crash = None" by (cases crash) simp_all
  from assms(1,3) have len: "int (length el) \<le> num_videos_to_download c" by (rule search_length)
  from download_loop_entries [OF d] obtain k where k:
    "zip_entries st = List.map_filter (entry_of w c) (take k (enumerate 0 el))"
    "downloaded_files st = map fst (List.map_filter (entry_of w c) (take k (enumerate 0 el)))"
    "filter is_video_request (events st) = List.map_filter (request_of c) (take k (enumerate 0 el))"
    "crash = None \<and> int (length el) \<le> num_videos_to_download c \<longrightarrow> k = length el"
    by (auto simp: download_start_def same no_request_in_pages)
  from k(4) crash len have kk: "k = length el" by simp
  have req: "filter is_video_request (trace (run w c clicked prev))
           = List.map_filter (request_of c) (enumerate 0 el)"
    using k(3) kk msgs by (simp add: no_request_in_statuses)
  have "length (List.map_filter (request_of c) (enumerate 0 el)) = length (enumerate 0 el)"
  proof (rule download_loop_all_requested)
    from d crash same
    show "download_loop w c (enumerate 0 el) (download_start reqs (length el)) = (None, st)" by simp
    from len show "int (length (downloaded_files (download_start reqs (length el))))
        + int (length (enumerate 0 el)) \<le> num_videos_to_download c"
      by (simp add: download_start_def)
  qed
  with req have all: "length (filter is_video_request (trace (run w c clicked prev))) = length el"
    by simp
  from assms(1,3) have "el = take (nat (num_videos_to_download c)) (filter (eligible c) (returned_hits w reqs))"
    by (rule search_take)
  with req all a e f k(1,2) kk show ?thesis by simp
qed

theorem archive_in_search_order_witness:
  "1 \<le> num_videos_to_download demo_criteria
   \<and> outcome (run demo_world demo_criteria True []) = Finished
   \<and> search demo_world demo_criteria = (Inr [hit 1 15 ''u1'', hit 3 20 ''u3''], [1, 2])
   \<and> [hit 1 15 ''u1'', hit 3 20 ''u3'']
       = take (nat (num_videos_to_download demo_criteria))
           (filter (eligible demo_criteria) [hit 1 15 ''u1'', hit 2 45 ''u2'', hit 3 20 ''u3''])
   \<and> filter is_video_request (trace (run demo_world demo_criteria True []))
       = [VideoRequest 0 (JStr ''u1''), VideoRequest 1 (JStr ''u3'')]
   \<and> archive (run demo_world demo_criteria True []) = Some [(''pixabay_video_1.mp4'', ''data'')]
   \<and> session_files (run demo_world demo_criteria True []) = [''pixabay_video_1.mp4'']"
proof -
  have h1: "1 \<le> num_videos_to_download demo_criteria" by (simp add: demo_criteria_def)
  have h2: "outcome (run demo_world demo_criteria True []) = Finished" by (simp add: demo_run)
  note r = archive_in_search_order [OF h1 h2 demo_search, THEN conjunct1, unfolded demo_returned]
  have t: "filter is_video_request (trace (run demo_world demo_criteria True []))
       = [VideoRequest 0 (JStr ''u1''), VideoRequest 1 (JStr ''u3'')]"
    and a: "archive (run demo_world demo_criteria True []) = Some [(''pixabay_video_1.mp4'', ''data'')]"
    and f: "session_files (run demo_world demo_criteria True []) = [''pixabay_video_1.mp4'']"
    by (simp_all add: demo_run)
  show ?thesis by (intro conjI h1 h2 demo_search r t a f)
qed

section \<open>File names\<close>

subsection \<open>The decimal rendering is injective\<close>

lemma digit_cases: "d < 10 \<Longrightarrow> d = 0 \<or> d = 1 \<or> d = 2 \<or> d = 3 \<or> d = 4 \<or> d = 5 \<or> d = 6 \<or> d = 7 \<or> d = 8 \<or> d = (9::nat)"
  by arith

lemma digit_char_code: "d < 10 \<Longrightarrow> (of_char (digit_char d) :: nat) = 48 + d"
  using digit_cases [of d] by (auto simp: digit_char_def)

lemma digit_char_inj:
  assumes "a < 10" "b < 10" "digit_char a = digit_char b"
  shows "a = b"
proof -
  from assms(1) have "48 + a = (of_char (digit_char a) :: nat)" by (simp only: digit_char_code)
  also have "\<dots> = of_char (digit_char b)" by (simp only: assms(3))
  also from assms(2) have "\<dots> = 48 + b" by (rule digit_char_code)
  finally show ?thesis by simp
qed

lemma digit_char_not_minus:
  assumes "d < 10"
  shows "digit_char d \<noteq> CHR ''-''"
proof
  assume "digit_char d = CHR ''-''"
  then have "(of_char (digit_char d) :: nat) = of_char (CHR ''-'')" by (simp only:)
  with digit_char_code [OF assms] show False by simp
qed

lemma str_nat_nonempty: "str_nat n \<noteq> []"
  by (subst str_nat.simps) simp

lemma str_nat_single: "length (str_nat n) = 1 \<longleftrightarrow> n < 10"
proof (cases "n < 10")
  case True
  then show ?thesis by (subst str_nat.simps) simp
next
  case False
  have "length (str_nat (n div 10)) \<noteq> 0" using str_nat_nonempty by simp
  with False show ?thesis by (subst str_nat.simps) simp
qed

lemma str_nat_inj: "str_nat m = str_nat n \<Longrightarrow> m = n"
proof (induction m arbitrary: n rule: str_nat.induct)
  case (1 m)
  show ?case
  proof (cases "m < 10")
    case True
    with "1.prems" str_nat_single [of m] str_nat_single [of n] have n: "n < 10" by simp
    from True n "1.prems" have "digit_char m = digit_char n"
      by (simp add: str_nat.simps [of m] str_nat.simps [of n])
    with True n show ?thesis by (rule digit_char_inj)
  next
    case False
    with "1.prems" str_nat_single [of m] str_nat_single [of n] have n: "\<not> n < 10" by simp
    from False n "1.prems"
    have "str_nat (m div 10) @ [digit_char (m mod 10)] = str_nat (n div 10) @ [digit_char (n mod 10)]"
      by (simp add: str_nat.simps [of m] str_nat.simps [of n])
    then have a: "str_nat (m div 10) = str_nat (n div 10)"
      and b: "digit_char (m mod 10) = digit_char (n mod 10)" by simp_all
    from "1.IH" [OF False a] have "m div 10 = n div 10" .
    moreover from b have "m mod 10 = n mod 10" by (intro digit_char_inj) simp_all
    ultimately show ?thesis by (metis div_mult_mod_eq)
  qed
qed

lemma str_nat_no_minus: "CHR ''-'' \<notin> set (str_nat n)"
proof (induction n rule: str_nat.induct)
  case (1 n)
  show ?case
  proof (cases "n < 10")
    case True
    then show ?thesis using digit_char_not_minus [of n] by (subst str_nat.simps) auto
  next
    case False
    with "1.IH" digit_char_not_minus [of "n mod 10"] show ?thesis
      by (subst str_nat.simps) auto
  qed
qed

lemma str_int_inj: "str_int a = str_int b \<Longrightarrow> a = b"
proof -
  assume eq: "str_int a = str_int b"
  show ?thesis
  proof (cases "a < 0")
    case an: True
    show ?thesis
    proof (cases "b < 0")
      case True
      with an eq have "str_nat (nat (- a)) = str_nat (nat (- b))" by (simp add: str_int_def)
      then have "nat (- a) = nat (- b)" by (rule str_nat_inj)
      with an True show ?thesis by simp
    next
      case False
      with an eq have "CHR ''-'' # str_nat (nat (- a)) = str_nat (nat b)" by (simp add: str_int_def)
      then have "CHR ''-'' \<in> set (str_nat (nat b))" by (metis list.set_intros(1))
      with str_nat_no_minus show ?thesis by blast
    qed
  next
    case ap: False
    show ?thesis
    proof (cases "b < 0")
      case True
      with ap eq have "str_nat (nat a) = CHR ''-'' # str_nat (nat (- b))" by (simp add: str_int_def)
      then have "CHR ''-'' \<in> set (str_nat (nat a))" by (metis list.set_intros(1))
      with str_nat_no_minus show ?thesis by blast
    next
      case False
      with ap eq have "str_nat (nat a) = str_nat (nat b)" by (simp add: str_int_def)
      then have "nat a = nat b" by (rule str_nat_inj)
      with ap False show ?thesis by simp
    qed
  qed
qed

subsection \<open>Uniqueness of the file names\<close>

lemma entry_name:
  assumes "entry_of w c iv = Some (name, content)" "hit_id (snd iv) = Some (JInt n)"
  shows "name = ''pixabay_video_'' @ str_int n @ ''.mp4''"
proof -
  from assms(2) obtain kvs where kvs: "snd iv = JDict kvs" "map_of kvs ''id'' = Some (JInt n)"
    by (cases "snd iv") (simp_all add: hit_id_def)
  then have "filename w (fst iv) (snd iv) = Inr (''pixabay_video_'' @ str_int n @ ''.mp4'')"
    by (simp add: filename_def)
  with assms(1) show ?thesis
    by (auto simp: entry_of_def split: sum.splits)
qed

lemma in_map_filter:
  "x \<in> set (List.map_filter f xs) \<Longrightarrow> \<exists>y\<in>set xs. f y = Some x"
  by (auto simp: List.map_filter_def)

lemma entry_names_distinct:
  "\<forall>iv\<in>set ivs. \<exists>n. hit_id (snd iv) = Some (JInt n) \<Longrightarrow>
   distinct (map (\<lambda>iv. hit_id (snd iv)) ivs) \<Longrightarrow>
   distinct (map fst (List.map_filter (entry_of w c) ivs))"
proof (induction ivs)
  case Nil
  then show ?case by simp
next
  case (Cons iv rest)
  from Cons have IH: "distinct (map fst (List.map_filter (entry_of w c) rest))" by simp
  show ?case
  proof (cases "entry_of w c iv")
    case None
    with IH show ?thesis by simp
  next
    case (Some entry)
    obtain name content where entry: "entry = (name, content)" by (cases entry)
    from Cons.prems(1) obtain n where n: "hit_id (snd iv) = Some (JInt n)" by auto
    from Some entry n have name: "name = ''pixabay_video_'' @ str_int n @ ''.mp4''"
      using entry_name by blast
    have "name \<notin> set (map fst (List.map_filter (entry_of w c) rest))"
    proof
      assume "name \<in> set (map fst (List.map_filter (entry_of w c) rest))"
      then obtain content' where "(name, content') \<in> set (List.map_filter (entry_of w c) rest)"
        by auto
      then obtain iv' where iv': "iv' \<in> set rest" "entry_of w c iv' = Some (name, content')"
        using in_map_filter by metis
      from Cons.prems(1) iv'(1) obtain n' where n': "hit_id (snd iv') = Some (JInt n')" by auto
      from iv'(2) n' have "name = ''pixabay_video_'' @ str_int n' @ ''.mp4''" by (rule entry_name)
      with name have "str_int n = str_int n'" by simp
      then have "n = n'" by (rule str_int_inj)
      with n n' have "hit_id (snd iv) = hit_id (snd iv')" by simp
      with iv'(1) Cons.prems(2) show False by force
    qed
    with IH Some entry show ?thesis by simp
  qed
qed

lemma run_session_files:
  assumes "min_duration c < max_duration c" "search w c = (Inr el, reqs)"
  shows "session_files (run w c True prev)
           = (if el = [] then []
              else downloaded_files (snd (download_loop w c (enumerate 0 el) (download_start reqs (length el)))))"
  using assms unfolding run_def
  by (cases "download_loop w c (enumerate 0 el) (download_start reqs (length el))")
     (auto split: option.splits)

lemma twin_run:
  "run twin_world demo_criteria True prev =
     \<lparr>outcome = Finished,
      trace = [Status Starting, PageRequest 1, PageRequest 2, Status (FoundVideos 2),
               VideoRequest 0 (JStr ''u1''), VideoRequest 1 (JStr ''u2''),
               Status (DownloadedCount 2)],
      session_files = [''pixabay_video_7.mp4'', ''pixabay_video_7.mp4''],
      archive = Some [(''pixabay_video_7.mp4'', ''data''), (''pixabay_video_7.mp4'', ''data'')],
      offered = True\<rparr>"
  by (simp add: twin_world_def demo_simps)

text \<open>
  Claim C8, as stated, fails: the file name depends on the identifier only, and nothing
  in the script removes a record whose identifier has been seen. With two eligible records
  of identifier 7 on the first page, both downloads succeed under the same name.
\<close>

theorem file_names_not_unique_counterexample:
  "session_files (run twin_world demo_criteria True [])
     = [''pixabay_video_7.mp4'', ''pixabay_video_7.mp4'']
   \<and> \<not> distinct (session_files (run twin_world demo_criteria True []))"
  by (simp add: twin_run)

text \<open>
  Claim C8, amended. With valid durations, every file name of a run is
  \<^verbatim>\<open>pixabay_video_<id>.mp4\<close> for the integer identifier of one of the selected hits,
  and the file names of the run are pairwise different, provided the selected hits carry
  integer identifiers that are pairwise different.
\<close>

theorem file_names_unique_for_distinct_ids:
  assumes "min_duration c < max_duration c"
    and "search w c = (Inr el, reqs)"
    and "\<forall>v\<in>set el. \<exists>n. hit_id v = Some (JInt n)"
    and "distinct (map hit_id el)"
  shows "distinct (session_files (run w c True prev))
       \<and> (\<forall>name\<in>set (session_files (run w c True prev)).
            \<exists>v\<in>set el. \<exists>n. hit_id v = Some (JInt n) \<and> name = ''pixabay_video_'' @ str_int n @ ''.mp4'')"
proof (cases "el = []")
  case True
  with assms(1,2) show ?thesis by (simp add: run_session_files)
next
  case False
  obtain crash st where d: "download_loop w c (enumerate 0 el) (download_start reqs (length el)) = (crash, st)"
    by (cases "download_loop w c (enumerate 0 el) (download_start reqs (length el))")
  with False assms(1,2) have f: "session_files (run w c True prev) = downloaded_files st"
    by (simp add: run_session_files)
  from download_loop_entries [OF d] obtain k where
    k: "downloaded_files st = map fst (List.map_filter (entry_of w c) (take k (enumerate 0 el)))"
    by (auto simp: download_start_def)
  let ?ivs = "take k (enumerate 0 el)"
  have sub: "snd iv \<in> set el" if "iv \<in> set ?ivs" for iv
  proof -
    from that have "iv \<in> set (enumerate 0 el)" by (rule in_set_takeD)
    then have "fst iv < length el" "el ! fst iv = snd iv" by (simp_all add: in_set_enumerate_eq)
    then show ?thesis by (metis nth_mem)
  qed
  with assms(3) have ids: "\<forall>iv\<in>set ?ivs. \<exists>n. hit_id (snd iv) = Some (JInt n)" by blast
  have "map (\<lambda>iv. hit_id (snd iv)) (enumerate 0 el) = map hit_id el"
    by (simp add: map_map [symmetric, of hit_id snd, unfolded comp_def])
  then have "take k (map (\<lambda>iv. hit_id (snd iv)) (enumerate 0 el)) = take k (map hit_id el)"
    by (simp only:)
  then have "map (\<lambda>iv. hit_id (snd iv)) ?ivs = take k (map hit_id el)"
    by (simp only: take_map)
  with assms(4) have dis: "distinct (map (\<lambda>iv. hit_id (snd iv)) ?ivs)" by simp
  from ids dis have "distinct (map fst (List.map_filter (entry_of w c) ?ivs))"
    by (rule entry_names_distinct)
  moreover have "\<exists>v\<in>set el. \<exists>n. hit_id v = Some (JInt n) \<and> name = ''pixabay_video_'' @ str_int n @ ''.mp4''"
    if "name \<in> set (map fst (List.map_filter (entry_of w c) ?ivs))" for name
  proof -
    from that obtain content where "(name, content) \<in> set (List.map_filter (entry_of w c) ?ivs)"
      by auto
    then obtain iv where iv: "iv \<in> set ?ivs" "entry_of w c iv = Some (name, content)"
      using in_map_filter by metis
    from ids iv(1) obtain n where n: "hit_id (snd iv) = Some (JInt n)" by auto
    from iv(2) n have "name = ''pixabay_video_'' @ str_int n @ ''.mp4''" by (rule entry_name)
    with n sub [OF iv(1)] show ?thesis by blast
  qed
  ultimately show ?thesis using f k by simp
qed

theorem file_names_unique_for_distinct_ids_witness:
  "min_duration demo_criteria < max_duration demo_criteria
   \<and> search demo_world demo_criteria = (Inr [hit 1 15 ''u1'', hit 3 20 ''u3''], [1, 2])
   \<and> hit_id (hit 1 15 ''u1'') = Some (JInt 1)
   \<and> hit_id (hit 3 20 ''u3'') = Some (JInt 3)
   \<and> distinct (map hit_id [hit 1 15 ''u1'', hit 3 20 ''u3''])
   \<and> distinct (session_files (run demo_world demo_criteria True []))
   \<and> session_files (run demo_world demo_criteria True []) = [''pixabay_video_1.mp4'']"
proof -
  have h1: "min_duration demo_criteria < max_duration demo_criteria"
    by (simp add: demo_criteria_def)
  have i1: "hit_id (hit 1 15 ''u1'') = Some (JInt 1)"
    and i3: "hit_id (hit 3 20 ''u3'') = Some (JInt 3)"
    by (simp_all add: hit_id_def hit_def)
  then have h3: "\<forall>v\<in>set [hit 1 15 ''u1'', hit 3 20 ''u3'']. \<exists>n. hit_id v = Some (JInt n)"
    by simp
  from i1 i3 have h4: "distinct (map hit_id [hit 1 15 ''u1'', hit 3 20 ''u3''])" by simp
  note r = file_names_unique_for_distinct_ids [OF h1 demo_search h3 h4, of "[]", THEN conjunct1]
  have f: "session_files (run demo_world demo_criteria True []) = [''pixabay_video_1.mp4'']"
    by (simp add: demo_run)
  show ?thesis by (intro conjI h1 demo_search i1 i3 h4 r f)
qed

section \<open>A record without renditions\<close>

lemma page_body_nonempty:
  assumes "page_hits w p \<noteq> []"
  shows "page_body w c p el
           = (case filter_hits c (page_hits w p) el of Inl e \<Rightarrow> Inl e | Inr el' \<Rightarrow> Inr (False, el'))"
proof -
  from assms obtain data where data: "search_get w p = Inr data"
    by (cases "search_get w p") (simp_all add: page_hits_def)
  from assms data obtain hits where hits: "py_index data ''hits'' = Inr hits"
    by (cases "py_index data ''hits''") (simp_all add: page_hits_def)
  from assms data hits obtain records where records: "py_iter hits = Inr records" "records \<noteq> []"
    by (cases "py_iter hits") (simp_all add: page_hits_def)
  from hits obtain kvs where kvs: "data = JDict kvs" "map_of kvs ''hits'' = Some hits"
    by (cases data) (auto split: option.splits)
  from records have "truthy hits \<and> (\<exists>n. py_len hits = Inr n)"
    by (cases hits) auto
  with data kvs records show ?thesis
    by (auto simp: page_body_def page_hits_def split: sum.splits)
qed

lemma filter_hits_append:
  "filter_hits c pre el = Inr el1 \<Longrightarrow> int (length el1) < num_videos_to_download c \<Longrightarrow>
   filter_hits c (pre @ rest) el = filter_hits c rest el1"
proof (induction pre arbitrary: el)
  case Nil
  then show ?case by simp
next
  case (Cons video pre)
  show ?case
  proof (cases "hit_passes c video")
    case (Inl e)
    with Cons.prems show ?thesis by simp
  next
    case (Inr kept)
    show ?thesis
    proof (cases "kept \<and> num_videos_to_download c \<le> int (length (el @ [video]))")
      case True
      with Inr Cons.prems show ?thesis by auto
    next
      case False
      with Inr Cons.prems Cons.IH show ?thesis by (cases kept) auto
    qed
  qed
qed

lemma malformed_hits:
  "page_hits malformed_world 1 = [hit 1 15 ''u1''] @ no_videos_hit # [hit 3 20 ''u3'']"
  by (simp add: malformed_world_def demo_world_def page_hits_def page_def)

lemma malformed_early_run:
  "run malformed_world (demo_criteria\<lparr>num_videos_to_download := 1\<rparr>) True prev =
     \<lparr>outcome = Finished,
      trace = [Status Starting, PageRequest 1, Status (FoundVideos 1),
               VideoRequest 0 (JStr ''u1''), Status (DownloadedCount 1)],
      session_files = [''pixabay_video_1.mp4''],
      archive = Some [(''pixabay_video_1.mp4'', ''data'')], offered = True\<rparr>"
  by (simp add: malformed_world_def no_videos_hit_def demo_simps)

text \<open>
  Claim C10, as stated, fails: the filter loop leaves a page as soon as the requested
  count is reached, so a record behind that point is never examined. With a requested
  count of one, the first page holds an eligible record followed by a record that has an
  in-range duration and no \<^verbatim>\<open>videos\<close> key; the run downloads the first record
  and offers the archive.
\<close>

theorem record_without_videos_counterexample:
  "page_hits malformed_world 1 = [hit 1 15 ''u1''] @ no_videos_hit # [hit 3 20 ''u3'']
   \<and> py_get no_videos_hit ''duration'' JNull = Inr (JInt 20)
   \<and> py_between (min_duration (demo_criteria\<lparr>num_videos_to_download := 1\<rparr>)) (JInt 20)
         (max_duration (demo_criteria\<lparr>num_videos_to_download := 1\<rparr>)) = Inr True
   \<and> py_index no_videos_hit ''videos'' = Inl KeyError
   \<and> trace (run malformed_world (demo_criteria\<lparr>num_videos_to_download := 1\<rparr>) True [])
       = [Status Starting, PageRequest 1, Status (FoundVideos 1),
          VideoRequest 0 (JStr ''u1''), Status (DownloadedCount 1)]
   \<and> outcome (run malformed_world (demo_criteria\<lparr>num_videos_to_download := 1\<rparr>) True []) = Finished
   \<and> offered (run malformed_world (demo_criteria\<lparr>num_videos_to_download := 1\<rparr>) True [])"
proof -
  have d: "py_get no_videos_hit ''duration'' JNull = Inr (JInt 20)"
    and v: "py_index no_videos_hit ''videos'' = Inl KeyError"
    by (simp_all add: no_videos_hit_def)
  have b: "py_between (min_duration (demo_criteria\<lparr>num_videos_to_download := 1\<rparr>)) (JInt 20)
         (max_duration (demo_criteria\<lparr>num_videos_to_download := 1\<rparr>)) = Inr True"
    by (simp add: demo_criteria_def py_between_def)
  have t: "trace (run malformed_world (demo_criteria\<lparr>num_videos_to_download := 1\<rparr>) True [])
       = [Status Starting, PageRequest 1, Status (FoundVideos 1),
          VideoRequest 0 (JStr ''u1''), Status (DownloadedCount 1)]"
    and out: "outcome (run malformed_world (demo_criteria\<lparr>num_videos_to_download := 1\<rparr>) True []) = Finished"
    and off: "offered (run malformed_world (demo_criteria\<lparr>num_videos_to_download := 1\<rparr>) True [])"
    by (simp_all add: malformed_early_run)
  show ?thesis by (intro conjI malformed_hits d b v t out off)
qed

text \<open>
  Claim C10, amended. With valid durations, let a record of a requested page (the first
  page, or the second when the first left the list below the requested count) have a
  duration inside the range and no \<^verbatim>\<open>videos\<close> key, and let the records before
  it on that page be filtered without exception and leave the list below the requested
  count, so that the loop reaches the record. Then the \<^verbatim>\<open>KeyError\<close> is caught by
  the search's handler and the run stops with the error message after the request of that
  page: the record is not skipped, no download is requested and no archive is created.
\<close>

theorem record_without_videos_is_fatal:
  assumes "min_duration c < max_duration c"
    and "(p = 1 \<and> el = [])
         \<or> (p = 2 \<and> page_body w c 1 [] = Inr (False, el) \<and> int (length el) < num_videos_to_download c)"
    and "page_hits w p = pre @ bad # post"
    and "filter_hits c pre el = Inr el1"
    and "int (length el1) < num_videos_to_download c"
    and "py_get bad ''duration'' JNull = Inr d"
    and "d \<noteq> JNull"
    and "py_between (min_duration c) d (max_duration c) = Inr True"
    and "py_index bad ''videos'' = Inl KeyError"
  shows "run w c True prev =
           \<lparr>outcome = Stopped,
            trace = Status Starting # map PageRequest [1..<Suc p]
                      @ [Status (SearchUnexpectedError KeyError)],
            session_files = [], archive = None, offered = False\<rparr>"
proof -
  from assms(6-9) have bad: "hit_passes c bad = Inl KeyError" by (simp add: hit_passes_def)
  from assms(4,5) have "filter_hits c (pre @ bad # post) el = filter_hits c (bad # post) el1"
    by (rule filter_hits_append)
  with bad have "filter_hits c (page_hits w p) el = Inl KeyError" by (simp add: assms(3))
  moreover from assms(3) have "page_hits w p \<noteq> []" by simp
  ultimately have body: "page_body w c p el = Inl KeyError" by (simp add: page_body_nonempty)
  have "search w c = (Inl KeyError, [1..<Suc p])"
    using assms(2)
  proof
    assume "p = 1 \<and> el = []"
    with body show ?thesis by (simp add: search_def)
  next
    assume "p = 2 \<and> page_body w c 1 [] = Inr (False, el) \<and> int (length el) < num_videos_to_download c"
    with body show ?thesis by (simp add: search_def upt_rec)
  qed
  with assms(1) show ?thesis by (simp add: run_def search_failed_def)
qed

theorem record_without_videos_is_fatal_witness:
  "min_duration demo_criteria < max_duration demo_criteria
   \<and> page_hits malformed_world 1 = [hit 1 15 ''u1''] @ no_videos_hit # [hit 3 20 ''u3'']
   \<and> filter_hits demo_criteria [hit 1 15 ''u1''] [] = Inr [hit 1 15 ''u1'']
   \<and> int (length [hit 1 15 ''u1'']) < num_videos_to_download demo_criteria
   \<and> py_get no_videos_hit ''duration'' JNull = Inr (JInt 20)
   \<and> JInt 20 \<noteq> JNull
   \<and> py_between (min_duration demo_criteria) (JInt 20) (max_duration demo_criteria) = Inr True
   \<and> py_index no_videos_hit ''videos'' = Inl KeyError
   \<and> run malformed_world demo_criteria True [''old.mp4''] =
        \<lparr>outcome = Stopped,
         trace = [Status Starting, PageRequest 1, Status (SearchUnexpectedError KeyError)],
         session_files = [], archive = None, offered = False\<rparr>"
proof -
  have h1: "min_duration demo_criteria < max_duration demo_criteria"
    by (simp add: demo_criteria_def)
  have h2: "((1::nat) = 1 \<and> ([]::json list) = [])
         \<or> ((1::nat) = 2 \<and> page_body malformed_world demo_criteria 1 [] = Inr (False, [])
              \<and> int (length ([]::json list)) < num_videos_to_download demo_criteria)"
    by simp
  have h4: "filter_hits demo_criteria [hit 1 15 ''u1''] [] = Inr [hit 1 15 ''u1'']"
    by (simp add: demo_simps)
  have h5: "int (length [hit 1 15 ''u1'']) < num_videos_to_download demo_criteria"
    by (simp add: demo_criteria_def)
  have h6: "py_get no_videos_hit ''duration'' JNull = Inr (JInt 20)"
    by (simp add: no_videos_hit_def)
  have h7: "JInt 20 \<noteq> JNull" by simp
  have h8: "py_between (min_duration demo_criteria) (JInt 20) (max_duration demo_criteria) = Inr True"
    by (simp add: demo_criteria_def py_between_def)
  have h9: "py_index no_videos_hit ''videos'' = Inl KeyError"
    by (simp add: no_videos_hit_def)
  from record_without_videos_is_fatal [OF h1 h2 malformed_hits h4 h5 h6 h7 h8 h9, of "[''old.mp4'']"]
  have r: "run malformed_world demo_criteria True [''old.mp4''] =
        \<lparr>outcome = Stopped,
         trace = [Status Starting, PageRequest 1, Status (SearchUnexpectedError KeyError)],
         session_files = [], archive = None, offered = False\<rparr>"
    by simp
  show ?thesis by (intro conjI h1 malformed_hits h4 h5 h6 h7 h8 h9 r)
qed

section \<open>What the filter keeps\<close>

lemma eligible_iff:
  "eligible c video \<longleftrightarrow>
     (\<exists>d n renditions rendition.
        py_get video ''duration'' JNull = Inr d \<and> py_number d = Some n
        \<and> min_duration c \<le> n \<and> n \<le> max_duration c
        \<and> py_index video ''videos'' = Inr renditions
        \<and> py_get renditions (video_quality c) JNull = Inr rendition \<and> truthy rendition)"
  by (cases "py_get video ''duration'' JNull")
     (auto simp: eligible_def hit_passes_def py_between_def split: sum.splits option.splits)

lemma selected_hits_eligible:
  assumes "1 \<le> num_videos_to_download c" "search w c = (Inr el, reqs)" "video \<in> set el"
  shows "eligible c video"
proof -
  from assms(1,2)
  have "el = take (nat (num_videos_to_download c)) (filter (eligible c) (returned_hits w reqs))"
    by (rule search_take)
  with assms(3) have "video \<in> set (filter (eligible c) (returned_hits w reqs))"
    by (metis in_set_takeD)
  then show ?thesis by simp
qed

lemma empty_url_search:
  "search empty_url_world large_criteria = (Inr [empty_url_hit], [1, 2])"
  by (simp add: empty_url_world_def large_criteria_def empty_url_hit_def demo_simps)

lemma empty_url_run:
  "run empty_url_world large_criteria True prev =
     \<lparr>outcome = Finished,
      trace = [Status Starting, PageRequest 1, PageRequest 2, Status (FoundVideos 1),
               VideoRequest 0 (JStr []),
               Status (DownloadApiError ''pixabay_video_5.mp4'' RequestException),
               Status (DownloadedCount 0), Status NoVideosDownloaded],
      session_files = [], archive = Some [], offered = False\<rparr>"
  by (simp add: empty_url_world_def large_criteria_def empty_url_hit_def demo_simps)

text \<open>
  Claim C1 at a record whose requested rendition is present with an empty URL: the test
  of line 125 looks at the rendition object, not at its URL, so the record is selected,
  and the download loop then requests the empty URL and reports the failure.
\<close>

theorem hit_with_empty_url_is_selected:
  "min_duration large_criteria < max_duration large_criteria
   \<and> search empty_url_world large_criteria = (Inr [empty_url_hit], [1, 2])
   \<and> download_url empty_url_hit (video_quality large_criteria) = Inr (JStr [])
   \<and> trace (run empty_url_world large_criteria True [])
       = [Status Starting, PageRequest 1, PageRequest 2, Status (FoundVideos 1),
          VideoRequest 0 (JStr []),
          Status (DownloadApiError ''pixabay_video_5.mp4'' RequestException),
          Status (DownloadedCount 0), Status NoVideosDownloaded]"
  by (simp add: empty_url_search empty_url_run)
    (simp add: large_criteria_def demo_criteria_def empty_url_hit_def download_url_def)

end
